theory Spec2Isabelle
  imports Main "HOL-Library.Sublist" "HOL-Library.Multiset"
begin

section \<open>Data model\<close>

text \<open>
  \<^verbatim>\<open>app/models/event.py\<close>: the closed enumeration \<^verbatim>\<open>RepeatInterval\<close>;
  \<^verbatim>\<open>app/schemas/event.py\<close>: the literal type \<^verbatim>\<open>ColorBucket\<close>.
\<close>

datatype RepeatInterval = NONE | DAY | WEEK | MONTH | YEAR

datatype ColorBucket = RED | ORANGE | YELLOW | GREEN | CYAN | BLUE | PURPLE

text \<open>
  The exceptions that the modelled code can raise: \<^verbatim>\<open>OverflowError\<close> from
  \<^verbatim>\<open>datetime + timedelta\<close>, \<^verbatim>\<open>ValueError\<close> from the \<^verbatim>\<open>datetime\<close> constructor
  and from \<^verbatim>\<open>replace\<close>, \<^verbatim>\<open>ValidationError\<close> from the constructor of the pydantic
  model \<^verbatim>\<open>AttachmentResponse\<close>, and whatever the storage service raises while it
  signs a URL.
\<close>

datatype error = OverflowError | ValueError | ValidationError | StorageError

text \<open>
  A timezone-aware \<^verbatim>\<open>datetime\<close>: the calendar fields as Python stores them, and the
  offset of its fixed-offset \<^verbatim>\<open>tzinfo\<close> in microseconds east of UTC. Naive datetimes
  are outside this model (the anchor is stored in a \<^verbatim>\<open>DateTime(timezone=True)\<close> column,
  and the reference instant is \<^verbatim>\<open>datetime.now(timezone.utc)\<close>).
\<close>

record datetime =
  year :: int
  month :: int
  day :: int
  hour :: int
  minute :: int
  second :: int
  microsecond :: int
  utcoffset :: int

definition MINYEAR :: int where
  "MINYEAR = 1"

definition MAXYEAR :: int where
  "MAXYEAR = 9999"

text \<open>\<^verbatim>\<open>calendar.isleap\<close> and the number of days of a month (\<^verbatim>\<open>calendar.monthrange(y, m)[1]\<close>).\<close>

definition isleap :: "int \<Rightarrow> bool" where
  "isleap y \<longleftrightarrow> y mod 4 = 0 \<and> (y mod 100 \<noteq> 0 \<or> y mod 400 = 0)"

definition days_in_month :: "int \<Rightarrow> int \<Rightarrow> int" where
  "days_in_month y m =
     (if m = 2 then (if isleap y then 29 else 28)
      else if m = 4 \<or> m = 6 \<or> m = 9 \<or> m = 11 then 30
      else 31)"

text \<open>
  What the \<^verbatim>\<open>datetime\<close> constructor accepts: every \<^verbatim>\<open>datetime\<close> object of Python
  satisfies it, and the properties below are stated for the records that do. The offset
  of a \<^verbatim>\<open>timezone\<close> lies strictly between minus and plus 24 hours.
\<close>

definition valid_datetime :: "datetime \<Rightarrow> bool" where
  "valid_datetime d \<longleftrightarrow>
     MINYEAR \<le> year d \<and> year d \<le> MAXYEAR \<and>
     1 \<le> month d \<and> month d \<le> 12 \<and>
     1 \<le> day d \<and> day d \<le> days_in_month (year d) (month d) \<and>
     0 \<le> hour d \<and> hour d < 24 \<and>
     0 \<le> minute d \<and> minute d < 60 \<and>
     0 \<le> second d \<and> second d < 60 \<and>
     0 \<le> microsecond d \<and> microsecond d < 1000000 \<and>
     - 86400000000 < utcoffset d \<and> utcoffset d < 86400000000"

text \<open>
  The proleptic Gregorian ordinal of the date (\<^verbatim>\<open>toordinal\<close>: 1 for 0001-01-01),
  and the instant of an aware datetime as microseconds on the UTC time line. Python
  compares two aware datetimes by their UTC instants.
\<close>

definition days_before_year :: "int \<Rightarrow> int" where
  "days_before_year y = (y - 1) * 365 + (y - 1) div 4 - (y - 1) div 100 + (y - 1) div 400"

definition days_before_month :: "int \<Rightarrow> int \<Rightarrow> int" where
  "days_before_month y m =
     [0, 0, 31, 59, 90, 120, 151, 181, 212, 243, 273, 304, 334] ! nat m
       + (if m > 2 \<and> isleap y then 1 else 0)"

definition toordinal :: "datetime \<Rightarrow> int" where
  "toordinal d = days_before_year (year d) + days_before_month (year d) (month d) + day d"

definition utc_us :: "datetime \<Rightarrow> int" where
  "utc_us d =
     ((toordinal d * 86400 + hour d * 3600 + minute d * 60 + second d) * 1000000
        + microsecond d) - utcoffset d"

definition dt_gt :: "datetime \<Rightarrow> datetime \<Rightarrow> bool" where
  "dt_gt a b \<longleftrightarrow> utc_us a > utc_us b"

definition dt_le :: "datetime \<Rightarrow> datetime \<Rightarrow> bool" where
  "dt_le a b \<longleftrightarrow> utc_us a \<le> utc_us b"

text \<open>
  \<^verbatim>\<open>app/core/config.py\<close>: the process-wide settings object; of its fields only
  \<^verbatim>\<open>LEAP_POLICY\<close> is read by the code modelled here. The world outside a call is the
  wall clock and the settings. \<^verbatim>\<open>datetime.now(timezone.utc)\<close> reads the clock; its
  result is an aware datetime.
\<close>

record Settings =
  DEFAULT_TIMEZONE :: string
  RATE_LIMIT_PER_MINUTE :: int
  LEAP_POLICY :: string

record world =
  clock :: datetime
  settings :: Settings

definition datetime_now_utc :: "world \<Rightarrow> datetime" where
  "datetime_now_utc w = clock w"

text \<open>
  \<^verbatim>\<open>datetime(y, m, d, hh, mm, ss, tzinfo=timezone.utc)\<close>, and the settings with the
  defaults of \<^verbatim>\<open>config.py\<close>; both are used to write concrete inputs.
\<close>

definition utc :: "int \<Rightarrow> int \<Rightarrow> int \<Rightarrow> int \<Rightarrow> int \<Rightarrow> int \<Rightarrow> datetime" where
  "utc y m d hh mm ss =
     \<lparr>year = y, month = m, day = d, hour = hh, minute = mm, second = ss,
      microsecond = 0, utcoffset = 0\<rparr>"

definition default_settings :: Settings where
  "default_settings =
     \<lparr>DEFAULT_TIMEZONE = ''Europe/Warsaw'', RATE_LIMIT_PER_MINUTE = 60, LEAP_POLICY = ''feb28''\<rparr>"

section \<open>Calendar facts\<close>

text \<open>The number of days before a year grows by 365 or 366 from one year to the next.\<close>

lemma div_step:
  fixes y k :: int
  assumes "0 < k"
  shows "y div k = (y - 1) div k + (if y mod k = 0 then 1 else 0)"
proof -
  define q where "q = (y - 1) div k"
  define r where "r = (y - 1) mod k"
  have r: "0 \<le> r" "r < k" using assms by (simp_all add: r_def)
  have "y - 1 = k * q + r" by (simp add: q_def r_def)
  then have y: "y = k * q + (r + 1)" by simp
  show ?thesis
  proof (cases "r + 1 = k")
    case True
    then have yq: "y = k * (q + 1) + 0" using y by (simp add: algebra_simps)
    have "y div k = q + 1" using int_div_pos_eq [OF yq] assms by simp
    moreover have "y mod k = 0" using int_mod_pos_eq [OF yq] assms by simp
    ultimately show ?thesis unfolding q_def by simp
  next
    case False
    then have lt: "r + 1 < k" "0 \<le> r + 1" using r by auto
    have "y div k = q" using int_div_pos_eq [OF y lt(2) lt(1)] .
    moreover have "y mod k = r + 1" using int_mod_pos_eq [OF y lt(2) lt(1)] .
    ultimately show ?thesis using r unfolding q_def by simp
  qed
qed

lemma mod_400_100: "(y::int) mod 400 = 0 \<Longrightarrow> y mod 100 = 0"
proof -
  assume "y mod 400 = 0"
  then have "400 dvd y" by (simp add: mod_eq_0_iff_dvd)
  moreover have "(100::int) dvd 400" by simp
  ultimately have "100 dvd y" using dvd_trans by blast
  then show ?thesis by (simp add: mod_eq_0_iff_dvd)
qed

lemma mod_100_4: "(y::int) mod 100 = 0 \<Longrightarrow> y mod 4 = 0"
proof -
  assume "y mod 100 = 0"
  then have "100 dvd y" by (simp add: mod_eq_0_iff_dvd)
  moreover have "(4::int) dvd 100" by simp
  ultimately have "4 dvd y" using dvd_trans by blast
  then show ?thesis by (simp add: mod_eq_0_iff_dvd)
qed

lemma days_before_year_succ:
  "days_before_year (y + 1) = days_before_year y + (if isleap y then 366 else 365)"
proof -
  define a4 a100 a400 where "a4 = (y - 1) div 4" and "a100 = (y - 1) div 100"
    and "a400 = (y - 1) div 400"
  define b4 b100 b400 where "b4 \<longleftrightarrow> y mod 4 = 0" and "b100 \<longleftrightarrow> y mod 100 = 0"
    and "b400 \<longleftrightarrow> y mod 400 = 0"
  have d4: "y div 4 = a4 + (if b4 then 1 else 0)"
    unfolding a4_def b4_def by (rule div_step) simp
  have d100: "y div 100 = a100 + (if b100 then 1 else 0)"
    unfolding a100_def b100_def by (rule div_step) simp
  have d400: "y div 400 = a400 + (if b400 then 1 else 0)"
    unfolding a400_def b400_def by (rule div_step) simp
  have imp: "b400 \<Longrightarrow> b100" "b100 \<Longrightarrow> b4"
    unfolding b4_def b100_def b400_def by (rule mod_400_100, assumption) (rule mod_100_4, assumption)
  have L: "days_before_year (y + 1) =
      y * 365 + (a4 + (if b4 then 1 else 0)) - (a100 + (if b100 then 1 else 0))
        + (a400 + (if b400 then 1 else 0))"
    unfolding days_before_year_def using d4 d100 d400 by simp
  have R: "days_before_year y = (y - 1) * 365 + a4 - a100 + a400"
    unfolding days_before_year_def a4_def a100_def a400_def by simp
  have leap: "isleap y \<longleftrightarrow> b4 \<and> (\<not> b100 \<or> b400)"
    unfolding isleap_def b4_def b100_def b400_def by simp
  show ?thesis
    unfolding L R leap using imp by (cases b4; cases b100; cases b400) simp_all
qed

section \<open>Date arithmetic of the standard library and of dateutil\<close>

text \<open>
  \<^verbatim>\<open>d + timedelta(days=1)\<close>: the calendar day after \<open>d\<close> at the same time of day and
  with the same \<^verbatim>\<open>tzinfo\<close>. Python computes it through the ordinal of the date;
  \<open>next_day_fromordinal\<close> below shows that this is the same date. Past 9999-12-31 the
  addition raises \<^verbatim>\<open>OverflowError\<close>. \<open>add_days n\<close> is \<^verbatim>\<open>+ timedelta(days=n)\<close>, and
  \<^verbatim>\<open>timedelta(weeks=1)\<close> is \<^verbatim>\<open>timedelta(days=7)\<close>.
\<close>

definition next_day :: "datetime \<Rightarrow> error + datetime" where
  "next_day d =
     (if day d < days_in_month (year d) (month d) then Inr (d\<lparr>day := day d + 1\<rparr>)
      else if month d < 12 then Inr (d\<lparr>month := month d + 1, day := 1\<rparr>)
      else if year d < MAXYEAR then Inr (d\<lparr>year := year d + 1, month := 1, day := 1\<rparr>)
      else Inl OverflowError)"

primrec add_days :: "nat \<Rightarrow> datetime \<Rightarrow> error + datetime" where
  "add_days 0 d = Inr d"
| "add_days (Suc n) d = (case next_day d of Inl e \<Rightarrow> Inl e | Inr d' \<Rightarrow> add_days n d')"

lemma month_cases:
  "1 \<le> m \<Longrightarrow> m \<le> 12 \<Longrightarrow>
   m = 1 \<or> m = 2 \<or> m = 3 \<or> m = 4 \<or> m = 5 \<or> m = 6 \<or> m = 7 \<or> m = 8 \<or> m = 9 \<or> m = 10 \<or> m = 11 \<or> m = (12::int)"
  by arith

lemma days_before_month_succ:
  "1 \<le> m \<Longrightarrow> m < 12 \<Longrightarrow> days_before_month y (m + 1) = days_before_month y m + days_in_month y m"
  using month_cases [of m] by (auto simp: days_before_month_def days_in_month_def)

lemma days_before_month_12:
  "days_before_month y 12 + 31 = (if isleap y then 366 else 365)"
  by (simp add: days_before_month_def)

lemma days_in_month_bounds: "28 \<le> days_in_month y m" "days_in_month y m \<le> 31"
  by (simp_all add: days_in_month_def)

lemma toordinal_next_day:
  assumes "valid_datetime d" "next_day d = Inr n"
  shows "toordinal n = toordinal d + 1"
proof (cases "day d < days_in_month (year d) (month d)")
  case True
  then have "n = d\<lparr>day := day d + 1\<rparr>" using assms(2) by (simp add: next_day_def)
  then show ?thesis by (simp add: toordinal_def)
next
  case False
  then have last: "day d = days_in_month (year d) (month d)"
    using assms(1) by (simp add: valid_datetime_def)
  show ?thesis
  proof (cases "month d < 12")
    case True
    then have "n = d\<lparr>month := month d + 1, day := 1\<rparr>"
      using assms(2) False by (simp add: next_day_def)
    moreover have "1 \<le> month d" using assms(1) by (simp add: valid_datetime_def)
    ultimately show ?thesis
      using days_before_month_succ [of "month d" "year d"] True last
      by (simp add: toordinal_def)
  next
    case m12: False
    then have m: "month d = 12" using assms(1) by (simp add: valid_datetime_def)
    then have n: "n = d\<lparr>year := year d + 1, month := 1, day := 1\<rparr>"
      using assms(2) False by (auto simp: next_day_def split: if_splits)
    have d31: "day d = 31" using last m by (simp add: days_in_month_def)
    have tn: "toordinal n = days_before_year (year d + 1) + 1"
      unfolding n by (simp add: toordinal_def days_before_month_def)
    have td: "toordinal d = days_before_year (year d) + (days_before_month (year d) 12 + 31)"
      using m d31 by (simp add: toordinal_def)
    show ?thesis
      unfolding tn td days_before_month_12 days_before_year_succ by simp
  qed
qed

lemma valid_next_day:
  assumes v: "valid_datetime d" and nd: "next_day d = Inr n"
  shows "valid_datetime n"
proof (cases "day d < days_in_month (year d) (month d)")
  case True
  then have "n = d\<lparr>day := day d + 1\<rparr>" using nd by (simp add: next_day_def)
  then show ?thesis using v True by (simp add: valid_datetime_def)
next
  case False
  show ?thesis
  proof (cases "month d < 12")
    case True
    then have "n = d\<lparr>month := month d + 1, day := 1\<rparr>"
      using nd False by (simp add: next_day_def)
    then show ?thesis
      using v True days_in_month_bounds(1) [of "year d" "month d + 1"]
      by (simp add: valid_datetime_def)
  next
    case m12: False
    then have y: "year d < MAXYEAR" and n: "n = d\<lparr>year := year d + 1, month := 1, day := 1\<rparr>"
      using nd False by (auto simp: next_day_def split: if_splits)
    show ?thesis
      unfolding n using v y days_in_month_bounds(1) [of "year d + 1" 1]
      by (simp add: valid_datetime_def MINYEAR_def)
  qed
qed

text \<open>
  The constructor \<^verbatim>\<open>datetime(y, m, d, hh, mm, ss, tzinfo=tz)\<close> (the microsecond defaults
  to 0) and \<^verbatim>\<open>dt.replace(year=y, month=m, day=d)\<close>: both build a new object and raise
  \<^verbatim>\<open>ValueError\<close> when a field is out of range.
\<close>

definition datetime_new :: "int \<Rightarrow> int \<Rightarrow> int \<Rightarrow> int \<Rightarrow> int \<Rightarrow> int \<Rightarrow> int \<Rightarrow> error + datetime" where
  "datetime_new y m d hh mm ss tz =
     (let r = \<lparr>year = y, month = m, day = d, hour = hh, minute = mm, second = ss,
                microsecond = 0, utcoffset = tz\<rparr>
      in if valid_datetime r then Inr r else Inl ValueError)"

definition replace_date :: "datetime \<Rightarrow> int \<Rightarrow> int \<Rightarrow> int \<Rightarrow> error + datetime" where
  "replace_date dt y m d =
     (let r = dt\<lparr>year := y, month := m, day := d\<rparr>
      in if valid_datetime r then Inr r else Inl ValueError)"

text \<open>
  \<^verbatim>\<open>other + relativedelta(years=years, months=months)\<close> of dateutil, for the two uses
  in the source (\<^verbatim>\<open>months=1\<close> and \<^verbatim>\<open>years=1\<close>): the year and the month are advanced,
  with a carry into the year when the month passes 12, the day is clamped to the length
  of the target month, and the date is replaced (the \<^verbatim>\<open>timedelta\<close> that dateutil adds
  afterwards is zero here).
\<close>

definition add_relativedelta :: "int \<Rightarrow> int \<Rightarrow> datetime \<Rightarrow> error + datetime" where
  "add_relativedelta years months other =
     (let y0 = year other + years;
          m0 = month other + months;
          y = (if months \<noteq> 0 \<and> m0 > 12 then y0 + 1 else y0);
          m = (if months \<noteq> 0 \<and> m0 > 12 then m0 - 12 else m0);
          d = min (days_in_month y m) (day other)
      in replace_date other y m d)"

section \<open>The occurrence calculator\<close>

text \<open>
  \<^verbatim>\<open>EventService.calculate_next_occurrence\<close>, lines 57 to 70: the body of the
  \<^verbatim>\<open>while\<close> loop for \<^verbatim>\<open>RepeatInterval.YEAR\<close>. The test on February 29 reads the
  anchor \<^verbatim>\<open>event_date\<close>, the arithmetic works on the running \<^verbatim>\<open>next_occ\<close>.
\<close>

definition year_step :: "string \<Rightarrow> datetime \<Rightarrow> datetime \<Rightarrow> error + datetime" where
  "year_step leap_policy event_date next_occ =
     (if month event_date = 2 \<and> day event_date = 29 then
        (let next_year = year next_occ + 1 in
         if isleap next_year then
           replace_date next_occ next_year (month next_occ) (day next_occ)
         else if leap_policy = ''mar01'' then
           datetime_new next_year 3 1 (hour next_occ) (minute next_occ) (second next_occ)
             (utcoffset next_occ)
         else
           datetime_new next_year 2 28 (hour next_occ) (minute next_occ) (second next_occ)
             (utcoffset next_occ))
      else add_relativedelta 1 0 next_occ)"

text \<open>
  A rank that every successful step decreases, whatever the fields hold: the calendar is
  bounded by year 9999. It gives the termination of the four loops.
\<close>

definition cal_rank :: "datetime \<Rightarrow> nat" where
  "cal_rank d = 400 * nat (MAXYEAR - year d) + 32 * nat (12 - month d) + nat (31 - day d)"

lemma cal_rank_next_day:
  assumes "next_day d = Inr n"
  shows "cal_rank n < cal_rank d"
proof (cases "day d < days_in_month (year d) (month d)")
  case True
  then have "n = d\<lparr>day := day d + 1\<rparr>" using assms by (simp add: next_day_def)
  then show ?thesis
    using True days_in_month_bounds(2) [of "year d" "month d"] by (simp add: cal_rank_def)
next
  case False
  then have d28: "28 \<le> day d" using days_in_month_bounds(1) [of "year d" "month d"] by simp
  show ?thesis
  proof (cases "month d < 12")
    case True
    then have "n = d\<lparr>month := month d + 1, day := 1\<rparr>"
      using assms False by (simp add: next_day_def)
    then show ?thesis using True d28 by (simp add: cal_rank_def)
  next
    case m12: False
    then have y: "year d < MAXYEAR" and n: "n = d\<lparr>year := year d + 1, month := 1, day := 1\<rparr>"
      using assms False by (auto simp: next_day_def split: if_splits)
    show ?thesis unfolding n using y m12 d28 by (simp add: cal_rank_def MAXYEAR_def)
  qed
qed

lemma cal_rank_add_days:
  "add_days (Suc k) d = Inr n \<Longrightarrow> cal_rank n < cal_rank d"
proof (induction k arbitrary: d)
  case 0
  then show ?case by (auto split: sum.splits dest: cal_rank_next_day)
next
  case (Suc k)
  from Suc.prems obtain d' where d': "next_day d = Inr d'" and r: "add_days (Suc k) d' = Inr n"
    by (auto split: sum.splits)
  from Suc.IH [OF r] cal_rank_next_day [OF d'] show ?case by simp
qed

lemma cal_rank_add_days_7:
  "add_days 7 d = Inr n \<Longrightarrow> cal_rank n < cal_rank d"
  using cal_rank_add_days [of 6 d n] by (simp add: eval_nat_numeral)

lemma replace_date_Inr:
  assumes "replace_date dt y m d = Inr n"
  shows "n = dt\<lparr>year := y, month := m, day := d\<rparr>" and "valid_datetime n"
  using assms by (auto simp: replace_date_def Let_def split: if_splits)

lemma datetime_new_Inr:
  assumes "datetime_new y m d hh mm ss tz = Inr n"
  shows "n = \<lparr>year = y, month = m, day = d, hour = hh, minute = mm, second = ss,
               microsecond = 0, utcoffset = tz\<rparr>" and "valid_datetime n"
  using assms by (auto simp: datetime_new_def Let_def split: if_splits)

lemma valid_date_fields:
  "valid_datetime n \<Longrightarrow> year n \<le> MAXYEAR \<and> 1 \<le> month n \<and> month n \<le> 12 \<and> 1 \<le> day n \<and> day n \<le> 31"
  using days_in_month_bounds(2) [of "year n" "month n"] by (simp add: valid_datetime_def)

lemma cal_rank_year_succ:
  assumes "valid_datetime n" "year n = year c + 1"
  shows "cal_rank n < cal_rank c"
proof -
  have f: "year n \<le> 9999" "1 \<le> month n" "1 \<le> day n"
    using valid_date_fields [OF assms(1)] by (simp_all add: MAXYEAR_def)
  have "nat (12 - month n) \<le> 11" "nat (31 - day n) \<le> 30" using f by simp_all
  moreover have "nat (MAXYEAR - year c) = nat (MAXYEAR - year n) + 1"
    using f assms(2) by (simp add: MAXYEAR_def)
  ultimately show ?thesis by (simp add: cal_rank_def)
qed

lemma cal_rank_add_relativedelta_month:
  assumes "add_relativedelta 0 1 c = Inr n"
  shows "cal_rank n < cal_rank c"
proof (cases "month c + 1 > 12")
  case True
  then have "replace_date c (year c + 1) (month c + 1 - 12) (min (days_in_month (year c + 1) (month c + 1 - 12)) (day c)) = Inr n"
    using assms by (simp add: add_relativedelta_def Let_def)
  from replace_date_Inr [OF this] have "valid_datetime n" "year n = year c + 1" by simp_all
  then show ?thesis by (rule cal_rank_year_succ)
next
  case False
  then have "replace_date c (year c) (month c + 1) (min (days_in_month (year c) (month c + 1)) (day c)) = Inr n"
    using assms by (simp add: add_relativedelta_def Let_def)
  from replace_date_Inr [OF this] have v: "valid_datetime n" and y: "year n = year c"
    and m: "month n = month c + 1" by simp_all
  have "1 \<le> day n" "1 \<le> month n" using valid_date_fields [OF v] by simp_all
  then have "nat (31 - day n) \<le> 30" "nat (12 - month c) = nat (12 - month n) + 1"
    using m False by simp_all
  then show ?thesis using y by (simp add: cal_rank_def)
qed

lemma year_step_year:
  assumes "year_step p a c = Inr n"
  shows "valid_datetime n \<and> year n = year c + 1"
proof (cases "month a = 2 \<and> day a = 29")
  case True
  then consider
      (leap) "replace_date c (year c + 1) (month c) (day c) = Inr n"
    | (mar) "datetime_new (year c + 1) 3 1 (hour c) (minute c) (second c) (utcoffset c) = Inr n"
    | (feb) "datetime_new (year c + 1) 2 28 (hour c) (minute c) (second c) (utcoffset c) = Inr n"
    using assms by (auto simp: year_step_def Let_def split: if_splits)
  then show ?thesis
  proof cases
    case leap
    from replace_date_Inr [OF this] show ?thesis by simp
  next
    case mar
    from datetime_new_Inr [OF this] show ?thesis by simp
  next
    case feb
    from datetime_new_Inr [OF this] show ?thesis by simp
  qed
next
  case False
  then have "replace_date c (year c + 1) (month c) (min (days_in_month (year c + 1) (month c)) (day c)) = Inr n"
    using assms by (auto simp: year_step_def add_relativedelta_def Let_def)
  from replace_date_Inr [OF this] show ?thesis by simp
qed

lemma cal_rank_year_step:
  "year_step p a c = Inr n \<Longrightarrow> cal_rank n < cal_rank c"
  using year_step_year [of p a c n] cal_rank_year_succ [of n c] by simp

text \<open>
  The four \<^verbatim>\<open>while next_occ <= now\<close> loops, one per recurring rule. A step that raises
  ends the loop with its error.
\<close>

function loop_day :: "datetime \<Rightarrow> datetime \<Rightarrow> error + datetime" where
  "loop_day now next_occ =
     (if dt_le next_occ now then
        (case add_days 1 next_occ of Inl e \<Rightarrow> Inl e | Inr n \<Rightarrow> loop_day now n)
      else Inr next_occ)"
  by pat_completeness auto
termination
  by (relation "measure (\<lambda>(now, c). cal_rank c)") (auto dest: cal_rank_add_days [of 0, simplified])

function loop_week :: "datetime \<Rightarrow> datetime \<Rightarrow> error + datetime" where
  "loop_week now next_occ =
     (if dt_le next_occ now then
        (case add_days 7 next_occ of Inl e \<Rightarrow> Inl e | Inr n \<Rightarrow> loop_week now n)
      else Inr next_occ)"
  by pat_completeness auto
termination
  by (relation "measure (\<lambda>(now, c). cal_rank c)")
    (auto dest: cal_rank_add_days_7)

function loop_month :: "datetime \<Rightarrow> datetime \<Rightarrow> error + datetime" where
  "loop_month now next_occ =
     (if dt_le next_occ now then
        (case add_relativedelta 0 1 next_occ of Inl e \<Rightarrow> Inl e | Inr n \<Rightarrow> loop_month now n)
      else Inr next_occ)"
  by pat_completeness auto
termination
  by (relation "measure (\<lambda>(now, c). cal_rank c)") (auto dest: cal_rank_add_relativedelta_month)

function loop_year :: "string \<Rightarrow> datetime \<Rightarrow> datetime \<Rightarrow> datetime \<Rightarrow> error + datetime" where
  "loop_year leap_policy event_date now next_occ =
     (if dt_le next_occ now then
        (case year_step leap_policy event_date next_occ of
           Inl e \<Rightarrow> Inl e
         | Inr n \<Rightarrow> loop_year leap_policy event_date now n)
      else Inr next_occ)"
  by pat_completeness auto
termination
  by (relation "measure (\<lambda>(p, a, now, c). cal_rank c)") (auto dest: cal_rank_year_step)

declare loop_day.simps [simp del] loop_week.simps [simp del] loop_month.simps [simp del]
  loop_year.simps [simp del]

text \<open>
  \<^verbatim>\<open>EventService.calculate_next_occurrence(event_date, repeat_interval)\<close>. The result is
  \<open>Inl\<close> of the error raised, or \<open>Inr\<close> of the \<^verbatim>\<open>Optional[datetime]\<close> returned.
\<close>

definition returned :: "error + datetime \<Rightarrow> error + datetime option" where
  "returned r = (case r of Inl e \<Rightarrow> Inl e | Inr d \<Rightarrow> Inr (Some d))"

definition calculate_next_occurrence ::
    "world \<Rightarrow> datetime \<Rightarrow> RepeatInterval \<Rightarrow> error + datetime option" where
  "calculate_next_occurrence w event_date repeat_interval =
     (if repeat_interval = NONE then Inr None
      else
        let now = datetime_now_utc w in
        if dt_gt event_date now then Inr (Some event_date)
        else if repeat_interval = DAY then returned (loop_day now event_date)
        else if repeat_interval = WEEK then returned (loop_week now event_date)
        else if repeat_interval = MONTH then returned (loop_month now event_date)
        else if repeat_interval = YEAR then
          returned (loop_year (LEAP_POLICY (settings w)) event_date now event_date)
        else Inr None)"

section \<open>Every step moves the candidate forward\<close>

text \<open>The time of day in microseconds, and two datetimes that differ in the date only.\<close>

definition tod_us :: "datetime \<Rightarrow> int" where
  "tod_us d = (hour d * 3600 + minute d * 60 + second d) * 1000000 + microsecond d"

definition same_clock :: "datetime \<Rightarrow> datetime \<Rightarrow> bool" where
  "same_clock a b \<longleftrightarrow>
     hour a = hour b \<and> minute a = minute b \<and> second a = second b \<and>
     microsecond a = microsecond b \<and> utcoffset a = utcoffset b"

lemma utc_us_alt: "utc_us d = toordinal d * 86400000000 + tod_us d - utcoffset d"
  by (simp add: utc_us_def tod_us_def algebra_simps)

lemma tod_us_bounds:
  assumes "valid_datetime d"
  shows "0 \<le> tod_us d" and "tod_us d < 86400000000"
proof -
  have h: "0 \<le> hour d" "hour d \<le> 23" "0 \<le> minute d" "minute d \<le> 59"
    "0 \<le> second d" "second d \<le> 59" "0 \<le> microsecond d" "microsecond d \<le> 999999"
    using assms by (simp_all add: valid_datetime_def)
  show "0 \<le> tod_us d" using h unfolding tod_us_def by simp
  show "tod_us d < 86400000000" using h unfolding tod_us_def by simp
qed

lemma same_clock_tod: "same_clock a b \<Longrightarrow> tod_us a = tod_us b \<and> utcoffset a = utcoffset b"
  by (simp add: same_clock_def tod_us_def)

lemma same_clock_refl [simp]: "same_clock a a"
  by (simp add: same_clock_def)

lemma same_clock_trans: "same_clock a b \<Longrightarrow> same_clock b c \<Longrightarrow> same_clock a c"
  by (simp add: same_clock_def)

lemma same_clock_next_day: "next_day d = Inr n \<Longrightarrow> same_clock n d"
  by (auto simp: next_day_def same_clock_def split: if_splits)

lemma add_days_props:
  assumes "valid_datetime d" "add_days k d = Inr n"
  shows "valid_datetime n \<and> toordinal n = toordinal d + int k \<and> same_clock n d"
  using assms
proof (induction k arbitrary: d)
  case 0
  then show ?case by simp
next
  case (Suc k)
  from Suc.prems(2) obtain d' where d': "next_day d = Inr d'" and r: "add_days k d' = Inr n"
    by (auto split: sum.splits)
  have v': "valid_datetime d'" using valid_next_day [OF Suc.prems(1) d'] .
  have o': "toordinal d' = toordinal d + 1" using toordinal_next_day [OF Suc.prems(1) d'] .
  have c': "same_clock d' d" using same_clock_next_day [OF d'] .
  from Suc.IH [OF v' r] o' c' show ?case by (auto intro: same_clock_trans)
qed

lemma add_days_utc_us:
  assumes "valid_datetime d" "add_days k d = Inr n"
  shows "utc_us n = utc_us d + int k * 86400000000"
  using add_days_props [OF assms] same_clock_tod [of n d]
  by (simp add: utc_us_alt algebra_simps)

lemma days_before_month_nonneg: "1 \<le> m \<Longrightarrow> m \<le> 12 \<Longrightarrow> 0 \<le> days_before_month y m"
  using month_cases [of m] by (auto simp: days_before_month_def)

lemma days_before_month_upper:
  "1 \<le> m \<Longrightarrow> m \<le> 12 \<Longrightarrow>
   days_before_month y m + days_in_month y m \<le> (if isleap y then 366 else 365)"
  using month_cases [of m] by (auto simp: days_before_month_def days_in_month_def)

lemma toordinal_lower:
  assumes "valid_datetime d"
  shows "days_before_year (year d) < toordinal d"
  using assms days_before_month_nonneg [of "month d" "year d"]
  by (simp add: valid_datetime_def toordinal_def)

lemma toordinal_upper:
  assumes "valid_datetime d"
  shows "toordinal d \<le> days_before_year (year d + 1)"
proof -
  have "days_before_month (year d) (month d) + day d
        \<le> days_before_month (year d) (month d) + days_in_month (year d) (month d)"
    using assms by (simp add: valid_datetime_def)
  also have "\<dots> \<le> (if isleap (year d) then 366 else 365)"
    using assms by (intro days_before_month_upper) (simp_all add: valid_datetime_def)
  finally show ?thesis
    unfolding toordinal_def days_before_year_succ by simp
qed

lemma days_before_year_add: "days_before_year y + 365 * int k \<le> days_before_year (y + int k)"
proof (induction k)
  case 0
  then show ?case by simp
next
  case (Suc k)
  have "days_before_year (y + int (Suc k)) = days_before_year ((y + int k) + 1)"
    by (simp add: algebra_simps)
  also have "\<dots> \<ge> days_before_year (y + int k) + 365"
    unfolding days_before_year_succ by simp
  finally show ?case using Suc by simp
qed

lemma days_before_year_mono:
  assumes "y \<le> y'"
  shows "days_before_year y + 365 * (y' - y) \<le> days_before_year y'"
  using days_before_year_add [of y "nat (y' - y)"] assms by simp

lemma year_less_toordinal:
  assumes "valid_datetime a" "valid_datetime b" "year a < year b"
  shows "toordinal a < toordinal b"
proof -
  have "toordinal a \<le> days_before_year (year a + 1)" using assms(1) by (rule toordinal_upper)
  also have "\<dots> \<le> days_before_year (year b)"
    using days_before_year_mono [of "year a + 1" "year b"] assms(3) by simp
  also have "\<dots> < toordinal b" using assms(2) by (rule toordinal_lower)
  finally show ?thesis .
qed

text \<open>The ordinal determines the date.\<close>

lemma days_before_month_step:
  "1 \<le> m \<Longrightarrow> m < m' \<Longrightarrow> m' \<le> 12 \<Longrightarrow>
   days_before_month y m + days_in_month y m \<le> days_before_month y m'"
proof (induction "nat (m' - m)" arbitrary: m')
  case 0
  then show ?case by simp
next
  case (Suc k)
  show ?case
  proof (cases "m' = m + 1")
    case True
    then show ?thesis using days_before_month_succ [of m y] Suc.prems by simp
  next
    case False
    then have lt: "m < m' - 1" using Suc.prems by simp
    have "k = nat ((m' - 1) - m)" using Suc.hyps(2) by simp
    from Suc.hyps(1) [OF this Suc.prems(1) lt]
    have "days_before_month y m + days_in_month y m \<le> days_before_month y (m' - 1)"
      using Suc.prems by simp
    moreover have "days_before_month y (m' - 1) \<le> days_before_month y m'"
      using days_before_month_succ [of "m' - 1" y] days_in_month_bounds(1) [of y "m' - 1"]
        Suc.prems lt by simp
    ultimately show ?thesis by simp
  qed
qed

lemma toordinal_inj:
  assumes va: "valid_datetime a" and vb: "valid_datetime b" and eq: "toordinal a = toordinal b"
  shows "year a = year b \<and> month a = month b \<and> day a = day b"
proof -
  have y: "year a = year b"
    using year_less_toordinal [OF va vb] year_less_toordinal [OF vb va] eq
    by (cases "year a < year b"; cases "year b < year a") simp_all
  have fa: "1 \<le> month a" "month a \<le> 12" "1 \<le> day a" "day a \<le> days_in_month (year a) (month a)"
    using va by (simp_all add: valid_datetime_def)
  have fb: "1 \<le> month b" "month b \<le> 12" "1 \<le> day b" "day b \<le> days_in_month (year b) (month b)"
    using vb by (simp_all add: valid_datetime_def)
  have e: "days_before_month (year a) (month a) + day a = days_before_month (year a) (month b) + day b"
    using eq y by (simp add: toordinal_def)
  have m: "month a = month b"
  proof (rule ccontr)
    assume "month a \<noteq> month b"
    then consider "month a < month b" | "month b < month a" by linarith
    then show False
    proof cases
      case 1
      from days_before_month_step [OF fa(1) 1 fb(2), of "year a"] e fa fb show False by simp
    next
      case 2
      from days_before_month_step [OF fb(1) 2 fa(2), of "year a"] e fa fb y show False by simp
    qed
  qed
  then show ?thesis using y e by simp
qed

lemma utc_us_less:
  assumes "valid_datetime c" "valid_datetime n" "toordinal c < toordinal n"
    "hour n = hour c" "minute n = minute c" "second n = second c" "utcoffset n = utcoffset c"
    "0 \<le> microsecond n"
  shows "utc_us c < utc_us n"
proof -
  have "microsecond c < 1000000" using assms(1) by (simp add: valid_datetime_def)
  moreover have "toordinal c + 1 \<le> toordinal n" using assms(3) by simp
  ultimately show ?thesis using assms(4-8) by (simp add: utc_us_def)
qed

lemma add_relativedelta_month_Inr:
  assumes v: "valid_datetime c" and s: "add_relativedelta 0 1 c = Inr n"
  shows "valid_datetime n" and "same_clock n c"
    and "year n = (if month c = 12 then year c + 1 else year c)"
    and "month n = (if month c = 12 then 1 else month c + 1)"
    and "day n = min (days_in_month (year n) (month n)) (day c)"
    and "toordinal c < toordinal n"
proof -
  have m: "1 \<le> month c" "month c \<le> 12" using v by (simp_all add: valid_datetime_def)
  define y' where "y' = (if month c = 12 then year c + 1 else year c)"
  define m' where "m' = (if month c = 12 then 1 else month c + 1)"
  have "replace_date c y' m' (min (days_in_month y' m') (day c)) = Inr n"
    using s m by (auto simp: add_relativedelta_def Let_def y'_def m'_def)
  from replace_date_Inr [OF this]
  have n: "n = c\<lparr>year := y', month := m', day := min (days_in_month y' m') (day c)\<rparr>"
    and vn: "valid_datetime n" by simp_all
  show "valid_datetime n" by (rule vn)
  show "same_clock n c" by (simp add: n same_clock_def)
  show yn: "year n = (if month c = 12 then year c + 1 else year c)" by (simp add: n y'_def)
  show mn: "month n = (if month c = 12 then 1 else month c + 1)" by (simp add: n m'_def)
  show dn: "day n = min (days_in_month (year n) (month n)) (day c)" by (simp add: n)
  have d1: "1 \<le> day n" using vn by (simp add: valid_datetime_def)
  have dc: "day c \<le> days_in_month (year c) (month c)" using v by (simp add: valid_datetime_def)
  show "toordinal c < toordinal n"
  proof (cases "month c = 12")
    case True
    have "toordinal n = days_before_year (year c + 1) + day n"
      using True by (simp add: toordinal_def n y'_def m'_def days_before_month_def)
    moreover have "toordinal c = days_before_year (year c) + (days_before_month (year c) 12 + day c)"
      using True by (simp add: toordinal_def)
    moreover have "day c \<le> 31" using dc True by (simp add: days_in_month_def)
    ultimately show ?thesis
      using d1 days_before_month_12 [of "year c"] days_before_year_succ [of "year c"]
      by (simp split: if_splits)
  next
    case False
    then have lt: "month c < 12" using m by simp
    have "toordinal n = days_before_year (year c) + days_before_month (year c) (month c + 1) + day n"
      using False by (simp add: toordinal_def n y'_def m'_def)
    then show ?thesis
      using d1 dc days_before_month_succ [OF m(1) lt, of "year c"] by (simp add: toordinal_def)
  qed
qed

lemma add_relativedelta_month_less:
  assumes "valid_datetime c" "add_relativedelta 0 1 c = Inr n"
  shows "utc_us c < utc_us n"
  using add_relativedelta_month_Inr(1,2,6) [OF assms] assms(1)
  by (intro utc_us_less) (simp_all add: same_clock_def valid_datetime_def)

lemma year_step_less:
  assumes v: "valid_datetime c" and s: "year_step p a c = Inr n"
  shows "utc_us c < utc_us n"
proof -
  have vn: "valid_datetime n" and y: "year n = year c + 1"
    using year_step_year [OF s] by simp_all
  have lt: "toordinal c < toordinal n" using v vn y by (intro year_less_toordinal) simp_all
  have "hour n = hour c \<and> minute n = minute c \<and> second n = second c \<and> utcoffset n = utcoffset c"
  proof (cases "month a = 2 \<and> day a = 29")
    case True
    then consider
        (leap) "replace_date c (year c + 1) (month c) (day c) = Inr n"
      | (mar) "datetime_new (year c + 1) 3 1 (hour c) (minute c) (second c) (utcoffset c) = Inr n"
      | (feb) "datetime_new (year c + 1) 2 28 (hour c) (minute c) (second c) (utcoffset c) = Inr n"
      using s by (auto simp: year_step_def Let_def split: if_splits)
    then show ?thesis
    proof cases
      case leap
      from replace_date_Inr(1) [OF this] show ?thesis by simp
    next
      case mar
      from datetime_new_Inr(1) [OF this] show ?thesis by simp
    next
      case feb
      from datetime_new_Inr(1) [OF this] show ?thesis by simp
    qed
  next
    case False
    then have "replace_date c (year c + 1) (month c) (min (days_in_month (year c + 1) (month c)) (day c)) = Inr n"
      using s by (auto simp: year_step_def add_relativedelta_def Let_def)
    from replace_date_Inr(1) [OF this] show ?thesis by simp
  qed
  moreover have "0 \<le> microsecond n" using vn by (simp add: valid_datetime_def)
  ultimately show ?thesis using v vn lt by (intro utc_us_less) simp_all
qed

subsection \<open>Steps that stay in range\<close>

text \<open>
  A candidate that is not after a reference instant before year 9998 lies before year
  9999 and at least a week before the last day: none of the steps leaves the range.
\<close>

lemma days_before_year_10000: "days_before_year 10000 = days_before_year 9999 + 365"
  using days_before_year_succ [of 9999] by (simp add: isleap_def)

lemma next_day_ok:
  assumes v: "valid_datetime d" and lt: "toordinal d < days_before_year 10000"
  shows "\<exists>n. next_day d = Inr n"
proof (rule ccontr)
  assume "\<not> (\<exists>n. next_day d = Inr n)"
  then have f: "\<not> day d < days_in_month (year d) (month d)" "\<not> month d < 12"
    "\<not> year d < MAXYEAR"
    by (auto simp: next_day_def split: if_splits)
  have y: "year d = 9999" and m: "month d = 12"
    using f v by (simp_all add: valid_datetime_def MAXYEAR_def)
  have "day d = 31" using f(1) v m by (simp add: valid_datetime_def days_in_month_def)
  then have "toordinal d = days_before_year 9999 + 365"
    using y m by (simp add: toordinal_def days_before_month_def isleap_def)
  then show False using lt days_before_year_10000 by simp
qed

lemma add_days_ok:
  assumes "valid_datetime d" "toordinal d + int k \<le> days_before_year 10000"
  shows "\<exists>n. add_days k d = Inr n"
  using assms
proof (induction k arbitrary: d)
  case 0
  then show ?case by simp
next
  case (Suc k)
  have "toordinal d < days_before_year 10000" using Suc.prems(2) by simp
  from next_day_ok [OF Suc.prems(1) this] obtain d' where d': "next_day d = Inr d'" ..
  have "valid_datetime d'" using valid_next_day [OF Suc.prems(1) d'] .
  moreover have "toordinal d' + int k \<le> days_before_year 10000"
    using toordinal_next_day [OF Suc.prems(1) d'] Suc.prems(2) by simp
  ultimately obtain n where "add_days k d' = Inr n" using Suc.IH by blast
  then show ?case using d' by simp
qed

text \<open>
  \<open>next_day\<close> is addition of one day through the ordinal: it yields the date whose
  ordinal is one more, whenever there is one.
\<close>

lemma next_day_fromordinal:
  assumes vd: "valid_datetime d" and vn: "valid_datetime n"
    and o: "toordinal n = toordinal d + 1"
  shows "\<exists>n'. next_day d = Inr n' \<and> year n' = year n \<and> month n' = month n \<and>
           day n' = day n \<and> same_clock n' d"
proof -
  have "toordinal n \<le> days_before_year (year n + 1)" using vn by (rule toordinal_upper)
  also have "\<dots> \<le> days_before_year 10000"
    using days_before_year_mono [of "year n + 1" 10000] vn
    by (simp add: valid_datetime_def MAXYEAR_def)
  finally have "toordinal d < days_before_year 10000" using o by simp
  from next_day_ok [OF vd this] obtain n' where n': "next_day d = Inr n'" ..
  have "valid_datetime n'" using valid_next_day [OF vd n'] .
  moreover have "toordinal n' = toordinal n" using toordinal_next_day [OF vd n'] o by simp
  ultimately have "year n' = year n \<and> month n' = month n \<and> day n' = day n"
    using vn by (intro toordinal_inj)
  then show ?thesis using n' same_clock_next_day [OF n'] by blast
qed

lemma le_now_toordinal:
  assumes vc: "valid_datetime c" and vn: "valid_datetime now" and le: "dt_le c now"
  shows "toordinal c \<le> toordinal now + 2"
proof -
  have oc: "utcoffset c < 86400000000" and on: "- 86400000000 < utcoffset now"
    using vc vn by (simp_all add: valid_datetime_def)
  have "utc_us c \<le> utc_us now" using le by (simp add: dt_le_def)
  then show ?thesis
    using tod_us_bounds(1) [OF vc] tod_us_bounds(2) [OF vn] oc on
    by (simp add: utc_us_alt)
qed

lemma le_now_in_range:
  assumes vc: "valid_datetime c" and vn: "valid_datetime now" and le: "dt_le c now"
    and yn: "year now < 9998"
  shows "toordinal c + 7 \<le> days_before_year 10000" and "year c < MAXYEAR"
proof -
  have "toordinal now \<le> days_before_year (year now + 1)" using vn by (rule toordinal_upper)
  also have "\<dots> \<le> days_before_year 9998"
    using days_before_year_mono [of "year now + 1" 9998] yn by simp
  finally have b: "toordinal c \<le> days_before_year 9998 + 2"
    using le_now_toordinal [OF vc vn le] by simp
  have m1: "days_before_year 9998 + 365 \<le> days_before_year 9999"
    using days_before_year_mono [of 9998 9999] by simp
  have m2: "days_before_year 9999 + 365 \<le> days_before_year 10000"
    using days_before_year_mono [of 9999 10000] by simp
  show "toordinal c + 7 \<le> days_before_year 10000" using b m1 m2 by simp
  show "year c < MAXYEAR"
  proof (rule ccontr)
    assume "\<not> year c < MAXYEAR"
    then have "year c = 9999" using vc by (simp add: valid_datetime_def MAXYEAR_def)
    then have "days_before_year 9999 < toordinal c" using toordinal_lower [OF vc] by simp
    then show False using b m1 by simp
  qed
qed

lemma replace_date_ok:
  assumes "valid_datetime c" "MINYEAR \<le> y" "y \<le> MAXYEAR" "1 \<le> m" "m \<le> 12"
    "1 \<le> d" "d \<le> days_in_month y m"
  shows "replace_date c y m d = Inr (c\<lparr>year := y, month := m, day := d\<rparr>)"
  using assms by (simp add: replace_date_def valid_datetime_def Let_def)

lemma min_day_ok:
  "1 \<le> d \<Longrightarrow> 1 \<le> min (days_in_month y m) d \<and> min (days_in_month y m) d \<le> days_in_month y m"
  using days_in_month_bounds(1) [of y m] by simp

lemma add_relativedelta_month_ok:
  assumes v: "valid_datetime c" and y: "year c < MAXYEAR"
  shows "\<exists>n. add_relativedelta 0 1 c = Inr n"
proof -
  have f: "MINYEAR \<le> year c" "1 \<le> month c" "month c \<le> 12" "1 \<le> day c"
    using v by (simp_all add: valid_datetime_def)
  show ?thesis
  proof (cases "month c = 12")
    case True
    have "replace_date c (year c + 1) 1 (min (days_in_month (year c + 1) 1) (day c))
        = Inr (c\<lparr>year := year c + 1, month := 1, day := min (days_in_month (year c + 1) 1) (day c)\<rparr>)"
      using v f y min_day_ok [OF f(4), of "year c + 1" 1]
      by (intro replace_date_ok) (simp_all add: MINYEAR_def)
    then show ?thesis using True by (simp add: add_relativedelta_def Let_def)
  next
    case False
    have "replace_date c (year c) (month c + 1) (min (days_in_month (year c) (month c + 1)) (day c))
        = Inr (c\<lparr>year := year c, month := month c + 1,
                 day := min (days_in_month (year c) (month c + 1)) (day c)\<rparr>)"
      using v f y False min_day_ok [OF f(4), of "year c" "month c + 1"]
      by (intro replace_date_ok) simp_all
    then show ?thesis using False f by (simp add: add_relativedelta_def Let_def)
  qed
qed

lemma add_relativedelta_year_ok:
  assumes v: "valid_datetime c" and y: "year c < MAXYEAR"
  shows "add_relativedelta 1 0 c
       = Inr (c\<lparr>year := year c + 1, month := month c,
                day := min (days_in_month (year c + 1) (month c)) (day c)\<rparr>)"
proof -
  have f: "MINYEAR \<le> year c" "1 \<le> month c" "month c \<le> 12" "1 \<le> day c"
    using v by (simp_all add: valid_datetime_def)
  have "replace_date c (year c + 1) (month c) (min (days_in_month (year c + 1) (month c)) (day c))
      = Inr (c\<lparr>year := year c + 1, month := month c,
               day := min (days_in_month (year c + 1) (month c)) (day c)\<rparr>)"
    using v f y min_day_ok [OF f(4), of "year c + 1" "month c"]
    by (intro replace_date_ok) (simp_all add: MINYEAR_def)
  then show ?thesis by (simp add: add_relativedelta_def Let_def)
qed

lemma days_in_month_leap: "isleap y' \<Longrightarrow> days_in_month y m \<le> days_in_month y' m"
  by (simp add: days_in_month_def)

lemma datetime_new_ok:
  assumes "valid_datetime c" "year c < MAXYEAR" "1 \<le> d" "d \<le> days_in_month (year c + 1) m"
    "1 \<le> m" "m \<le> 12"
  shows "datetime_new (year c + 1) m d (hour c) (minute c) (second c) (utcoffset c)
       = Inr \<lparr>year = year c + 1, month = m, day = d, hour = hour c, minute = minute c,
              second = second c, microsecond = 0, utcoffset = utcoffset c\<rparr>"
  using assms by (simp add: datetime_new_def valid_datetime_def Let_def MINYEAR_def)

lemma year_step_ok:
  assumes v: "valid_datetime c" and y: "year c < MAXYEAR"
  shows "\<exists>n. year_step p a c = Inr n"
proof (cases "month a = 2 \<and> day a = 29")
  case False
  then show ?thesis using add_relativedelta_year_ok [OF v y] by (auto simp: year_step_def)
next
  case True
  have f: "MINYEAR \<le> year c" "1 \<le> month c" "month c \<le> 12" "1 \<le> day c"
    "day c \<le> days_in_month (year c) (month c)"
    using v by (simp_all add: valid_datetime_def)
  show ?thesis
  proof (cases "isleap (year c + 1)")
    case leap: True
    have "replace_date c (year c + 1) (month c) (day c)
        = Inr (c\<lparr>year := year c + 1, month := month c, day := day c\<rparr>)"
      using v f y days_in_month_leap [OF leap, of "year c" "month c"]
      by (intro replace_date_ok) (simp_all add: MINYEAR_def)
    then show ?thesis using True leap by (simp add: year_step_def Let_def)
  next
    case False
    have "\<exists>n. datetime_new (year c + 1) 3 1 (hour c) (minute c) (second c) (utcoffset c) = Inr n"
      using datetime_new_ok [OF v y, of 1 3] by (simp add: days_in_month_def)
    moreover
    have "\<exists>n. datetime_new (year c + 1) 2 28 (hour c) (minute c) (second c) (utcoffset c) = Inr n"
      using datetime_new_ok [OF v y, of 28 2] by (simp add: days_in_month_def)
    ultimately show ?thesis using True False by (simp add: year_step_def Let_def)
  qed
qed

section \<open>The loops as iteration of the step\<close>

text \<open>
  \<open>iterate_step f k c\<close> is the \<open>k\<close>-th element of the sequence \<open>c\<close>, \<open>f c\<close>,
  \<open>f (f c)\<close>, ... as long as no step raises. Any loop of the shape of the four loops
  returns the first element of this sequence that is after \<open>now\<close>, or raises at the
  first step that raises.
\<close>

primrec iterate_step :: "(datetime \<Rightarrow> error + datetime) \<Rightarrow> nat \<Rightarrow> datetime \<Rightarrow> error + datetime" where
  "iterate_step f 0 c = Inr c"
| "iterate_step f (Suc k) c = (case f c of Inl e \<Rightarrow> Inl e | Inr n \<Rightarrow> iterate_step f k n)"

lemma advance_scheme:
  fixes loop :: "datetime \<Rightarrow> error + datetime"
  assumes eq: "\<And>c. loop c =
      (if dt_le c now then (case step c of Inl e \<Rightarrow> Inl e | Inr n \<Rightarrow> loop n) else Inr c)"
    and inv: "\<And>c n. I c \<Longrightarrow> dt_le c now \<Longrightarrow> step c = Inr n \<Longrightarrow> I n \<and> utc_us c < utc_us n"
    and start: "I c"
  shows "(\<exists>k r. loop c = Inr r \<and> iterate_step step k c = Inr r \<and> dt_gt r now \<and> I r \<and>
            (\<forall>j<k. \<exists>x. iterate_step step j c = Inr x \<and> dt_le x now))
       \<or> (\<exists>k x e. loop c = Inl e \<and> iterate_step step k c = Inr x \<and> I x \<and> dt_le x now \<and>
            step x = Inl e)"
  using start
proof (induction "nat (utc_us now - utc_us c + 1)" arbitrary: c rule: less_induct)
  case less
  show ?case
  proof (cases "dt_le c now")
    case False
    then have "loop c = Inr c" by (subst eq) simp
    moreover have "iterate_step step 0 c = Inr c" by simp
    moreover have "dt_gt c now" using False by (simp add: dt_gt_def dt_le_def)
    ultimately show ?thesis using less.prems by blast
  next
    case True
    show ?thesis
    proof (cases "step c")
      case (Inl e)
      then have "loop c = Inl e" using True by (subst eq) simp
      moreover have "iterate_step step 0 c = Inr c" by simp
      ultimately show ?thesis using less.prems True Inl by blast
    next
      case (Inr n)
      have n: "I n" "utc_us c < utc_us n" using inv [OF less.prems True Inr] by simp_all
      have "nat (utc_us now - utc_us n + 1) < nat (utc_us now - utc_us c + 1)"
        using n(2) True by (simp add: dt_le_def)
      from less.hyps [OF this n(1)] have
        "(\<exists>k r. loop n = Inr r \<and> iterate_step step k n = Inr r \<and> dt_gt r now \<and> I r \<and>
            (\<forall>j<k. \<exists>x. iterate_step step j n = Inr x \<and> dt_le x now))
       \<or> (\<exists>k x e. loop n = Inl e \<and> iterate_step step k n = Inr x \<and> I x \<and> dt_le x now \<and>
            step x = Inl e)" .
      moreover have ln: "loop c = loop n" using True Inr by (subst eq) simp
      ultimately show ?thesis
      proof (elim disjE exE conjE)
        fix k r
        assume a: "loop n = Inr r" "iterate_step step k n = Inr r" "dt_gt r now" "I r"
          "\<forall>j<k. \<exists>x. iterate_step step j n = Inr x \<and> dt_le x now"
        have "iterate_step step (Suc k) c = Inr r" using Inr a(2) by simp
        moreover have "\<forall>j<Suc k. \<exists>x. iterate_step step j c = Inr x \<and> dt_le x now"
        proof (intro allI impI)
          fix j assume "j < Suc k"
          show "\<exists>x. iterate_step step j c = Inr x \<and> dt_le x now"
          proof (cases j)
            case 0
            then show ?thesis using True by simp
          next
            case (Suc i)
            then have "i < k" using \<open>j < Suc k\<close> by simp
            then show ?thesis using a(5) Suc Inr by simp
          qed
        qed
        ultimately show ?thesis using a(1,3,4) ln by (intro disjI1) (metis (no_types))
      next
        fix k x e
        assume a: "loop n = Inl e" "iterate_step step k n = Inr x" "I x" "dt_le x now" "step x = Inl e"
        have "iterate_step step (Suc k) c = Inr x" using Inr a(2) by simp
        then show ?thesis using a ln by (intro disjI2) (metis (no_types))
      qed
    qed
  qed
qed

text \<open>The step of each rule, and the loop of each rule, as one function of the rule.\<close>

definition rule_step :: "string \<Rightarrow> datetime \<Rightarrow> RepeatInterval \<Rightarrow> datetime \<Rightarrow> error + datetime" where
  "rule_step leap_policy event_date rule c =
     (case rule of
        NONE \<Rightarrow> Inr c
      | DAY \<Rightarrow> add_days 1 c
      | WEEK \<Rightarrow> add_days 7 c
      | MONTH \<Rightarrow> add_relativedelta 0 1 c
      | YEAR \<Rightarrow> year_step leap_policy event_date c)"

definition advance :: "string \<Rightarrow> datetime \<Rightarrow> RepeatInterval \<Rightarrow> datetime \<Rightarrow> datetime \<Rightarrow> error + datetime" where
  "advance leap_policy event_date rule now c =
     (case rule of
        NONE \<Rightarrow> Inr c
      | DAY \<Rightarrow> loop_day now c
      | WEEK \<Rightarrow> loop_week now c
      | MONTH \<Rightarrow> loop_month now c
      | YEAR \<Rightarrow> loop_year leap_policy event_date now c)"

lemma advance_eq:
  assumes "rule \<noteq> NONE"
  shows "advance p a rule now c =
     (if dt_le c now then
        (case rule_step p a rule c of Inl e \<Rightarrow> Inl e | Inr n \<Rightarrow> advance p a rule now n)
      else Inr c)"
proof (cases rule)
  case NONE
  then show ?thesis using assms by simp
next
  case DAY
  show ?thesis unfolding DAY advance_def rule_step_def RepeatInterval.case
    by (subst loop_day.simps) simp
next
  case WEEK
  show ?thesis unfolding WEEK advance_def rule_step_def RepeatInterval.case
    by (subst loop_week.simps) simp
next
  case MONTH
  show ?thesis unfolding MONTH advance_def rule_step_def RepeatInterval.case
    by (subst loop_month.simps) simp
next
  case YEAR
  show ?thesis unfolding YEAR advance_def rule_step_def RepeatInterval.case
    by (subst loop_year.simps) simp
qed

lemma calculate_next_occurrence_advance:
  assumes "rule \<noteq> NONE" "\<not> dt_gt a (clock w)"
  shows "calculate_next_occurrence w a rule
       = returned (advance (LEAP_POLICY (settings w)) a rule (clock w) a)"
  using assms by (cases rule) (simp_all add: calculate_next_occurrence_def advance_def datetime_now_utc_def)

lemma rule_step_increases:
  assumes "rule \<noteq> NONE" "valid_datetime c" "rule_step p a rule c = Inr n"
  shows "valid_datetime n" and "utc_us c < utc_us n"
proof -
  have "valid_datetime n \<and> utc_us c < utc_us n"
  proof (cases rule)
    case NONE
    then show ?thesis using assms by simp
  next
    case DAY
    then have s: "add_days 1 c = Inr n" using assms(3) by (simp add: rule_step_def)
    show ?thesis using add_days_props [OF assms(2) s] add_days_utc_us [OF assms(2) s] by simp
  next
    case WEEK
    then have s: "add_days 7 c = Inr n" using assms(3) by (simp add: rule_step_def)
    show ?thesis using add_days_props [OF assms(2) s] add_days_utc_us [OF assms(2) s] by simp
  next
    case MONTH
    then have s: "add_relativedelta 0 1 c = Inr n" using assms(3) by (simp add: rule_step_def)
    show ?thesis
      using add_relativedelta_month_Inr(1) [OF assms(2) s] add_relativedelta_month_less [OF assms(2) s]
      by simp
  next
    case YEAR
    then have s: "year_step p a c = Inr n" using assms(3) by (simp add: rule_step_def)
    show ?thesis using year_step_year [OF s] year_step_less [OF assms(2) s] by simp
  qed
  then show "valid_datetime n" and "utc_us c < utc_us n" by simp_all
qed

lemma rule_step_ok:
  assumes vc: "valid_datetime c" and vn: "valid_datetime now" and le: "dt_le c now"
    and yn: "year now < 9998"
  shows "\<exists>n. rule_step p a rule c = Inr n"
proof (cases rule)
  case NONE
  then show ?thesis by (simp add: rule_step_def)
next
  case DAY
  have "toordinal c + int 1 \<le> days_before_year 10000"
    using le_now_in_range(1) [OF vc vn le yn] by simp
  from add_days_ok [OF vc this] show ?thesis using DAY by (simp add: rule_step_def)
next
  case WEEK
  have "toordinal c + int 7 \<le> days_before_year 10000"
    using le_now_in_range(1) [OF vc vn le yn] by simp
  from add_days_ok [OF vc this] show ?thesis using WEEK by (simp add: rule_step_def)
next
  case MONTH
  then show ?thesis
    using add_relativedelta_month_ok [OF vc le_now_in_range(2) [OF vc vn le yn]]
    by (simp add: rule_step_def)
next
  case YEAR
  then show ?thesis
    using year_step_ok [OF vc le_now_in_range(2) [OF vc vn le yn]]
    by (simp add: rule_step_def)
qed

lemma next_occurrence_scheme:
  assumes r: "rule \<noteq> NONE" and le: "dt_le a (clock w)"
    and inv: "\<And>c n. I c \<Longrightarrow> dt_le c (clock w) \<Longrightarrow>
               rule_step (LEAP_POLICY (settings w)) a rule c = Inr n \<Longrightarrow> I n \<and> utc_us c < utc_us n"
    and start: "I a"
  shows "(\<exists>k x. calculate_next_occurrence w a rule = Inr (Some x) \<and>
            iterate_step (rule_step (LEAP_POLICY (settings w)) a rule) k a = Inr x \<and>
            dt_gt x (clock w) \<and> I x \<and>
            (\<forall>j<k. \<exists>y. iterate_step (rule_step (LEAP_POLICY (settings w)) a rule) j a = Inr y \<and>
                        dt_le y (clock w)))
       \<or> (\<exists>k x e. calculate_next_occurrence w a rule = Inl e \<and>
            iterate_step (rule_step (LEAP_POLICY (settings w)) a rule) k a = Inr x \<and>
            I x \<and> dt_le x (clock w) \<and>
            rule_step (LEAP_POLICY (settings w)) a rule x = Inl e)"
proof -
  define p where "p = LEAP_POLICY (settings w)"
  have "\<not> dt_gt a (clock w)" using le by (simp add: dt_gt_def dt_le_def)
  then have c: "calculate_next_occurrence w a rule = returned (advance p a rule (clock w) a)"
    unfolding p_def using r by (intro calculate_next_occurrence_advance) simp_all
  have "(\<exists>k x. advance p a rule (clock w) a = Inr x \<and> iterate_step (rule_step p a rule) k a = Inr x \<and>
            dt_gt x (clock w) \<and> I x \<and>
            (\<forall>j<k. \<exists>y. iterate_step (rule_step p a rule) j a = Inr y \<and> dt_le y (clock w)))
       \<or> (\<exists>k x e. advance p a rule (clock w) a = Inl e \<and>
            iterate_step (rule_step p a rule) k a = Inr x \<and> I x \<and> dt_le x (clock w) \<and>
            rule_step p a rule x = Inl e)"
    using advance_eq [OF r] inv start unfolding p_def
    by (intro advance_scheme [where loop = "advance (LEAP_POLICY (settings w)) a rule (clock w)"]) auto
  then show ?thesis
  proof (elim disjE exE conjE)
    fix k x
    assume "advance p a rule (clock w) a = Inr x" "iterate_step (rule_step p a rule) k a = Inr x"
      "dt_gt x (clock w)" "I x"
      "\<forall>j<k. \<exists>y. iterate_step (rule_step p a rule) j a = Inr y \<and> dt_le y (clock w)"
    then show ?thesis unfolding c p_def [symmetric] by (intro disjI1) (auto simp: returned_def)
  next
    fix k x e
    assume "advance p a rule (clock w) a = Inl e" "iterate_step (rule_step p a rule) k a = Inr x"
      "I x" "dt_le x (clock w)" "rule_step p a rule x = Inl e"
    then show ?thesis unfolding c p_def [symmetric] by (intro disjI2) (auto simp: returned_def)
  qed
qed

lemma next_occurrence_valid_scheme:
  assumes r: "rule \<noteq> NONE" and le: "dt_le a (clock w)" and va: "valid_datetime a"
  shows "(\<exists>k x. calculate_next_occurrence w a rule = Inr (Some x) \<and>
            iterate_step (rule_step (LEAP_POLICY (settings w)) a rule) k a = Inr x \<and>
            dt_gt x (clock w) \<and> valid_datetime x \<and>
            (\<forall>j<k. \<exists>y. iterate_step (rule_step (LEAP_POLICY (settings w)) a rule) j a = Inr y \<and>
                        dt_le y (clock w)))
       \<or> (\<exists>k x e. calculate_next_occurrence w a rule = Inl e \<and>
            iterate_step (rule_step (LEAP_POLICY (settings w)) a rule) k a = Inr x \<and>
            valid_datetime x \<and> dt_le x (clock w) \<and>
            rule_step (LEAP_POLICY (settings w)) a rule x = Inl e)"
  using r le va rule_step_increases [OF r]
  by (intro next_occurrence_scheme [where I = valid_datetime]) auto

section \<open>Properties of the occurrence calculator\<close>

text \<open>Unfolding sets for evaluating the model on concrete inputs.\<close>

lemmas eval_defs =
  utc_def default_settings_def valid_datetime_def days_in_month_def isleap_def MINYEAR_def
  MAXYEAR_def dt_le_def dt_gt_def utc_us_def toordinal_def days_before_year_def
  days_before_month_def

lemmas calc_defs =
  calculate_next_occurrence_def datetime_now_utc_def returned_def
  loop_day.simps loop_week.simps loop_month.simps loop_year.simps
  year_step_def add_relativedelta_def replace_date_def datetime_new_def next_day_def Let_def

lemma rule_step_fun:
  "rule_step p a DAY = add_days 1" "rule_step p a WEEK = add_days 7"
  "rule_step p a MONTH = add_relativedelta 0 1" "rule_step p a YEAR = year_step p a"
  by (rule ext, simp add: rule_step_def)+

lemma iterate_add_days:
  assumes "valid_datetime c" "iterate_step (add_days m) k c = Inr r"
  shows "utc_us r = utc_us c + int (k * m) * 86400000000"
  using assms
proof (induction k arbitrary: c)
  case 0
  then show ?case by simp
next
  case (Suc k)
  from Suc.prems(2) obtain n where n: "add_days m c = Inr n"
    and r: "iterate_step (add_days m) k n = Inr r"
    by (auto split: sum.splits)
  have "valid_datetime n" using add_days_props [OF Suc.prems(1) n] by simp
  from Suc.IH [OF this r] add_days_utc_us [OF Suc.prems(1) n]
  show ?case by (simp add: algebra_simps)
qed

lemma first_exceeding:
  assumes "rule \<noteq> NONE" "valid_datetime anchor" "valid_datetime (clock w)"
    "dt_le anchor (clock w)" "year (clock w) < 9998"
  shows "\<exists>k r. calculate_next_occurrence w anchor rule = Inr (Some r) \<and>
           iterate_step (rule_step (LEAP_POLICY (settings w)) anchor rule) k anchor = Inr r \<and>
           dt_gt r (clock w) \<and>
           (\<forall>j<k. \<exists>c. iterate_step (rule_step (LEAP_POLICY (settings w)) anchor rule) j anchor = Inr c \<and>
                       dt_le c (clock w)) \<and>
           (rule = DAY \<longrightarrow> utc_us r = utc_us anchor + int k * 86400000000) \<and>
           (rule = WEEK \<longrightarrow> utc_us r = utc_us anchor + int k * (7 * 86400000000))"
proof -
  define step where "step = rule_step (LEAP_POLICY (settings w)) anchor rule"
  have "(\<exists>k x. calculate_next_occurrence w anchor rule = Inr (Some x) \<and>
            iterate_step step k anchor = Inr x \<and> dt_gt x (clock w) \<and> valid_datetime x \<and>
            (\<forall>j<k. \<exists>y. iterate_step step j anchor = Inr y \<and> dt_le y (clock w)))
       \<or> (\<exists>k x e. calculate_next_occurrence w anchor rule = Inl e \<and>
            iterate_step step k anchor = Inr x \<and> valid_datetime x \<and> dt_le x (clock w) \<and>
            step x = Inl e)"
    unfolding step_def using assms(1,4,2) by (rule next_occurrence_valid_scheme)
  moreover have "step x \<noteq> Inl e" if vx: "valid_datetime x" and lx: "dt_le x (clock w)" for x e
  proof -
    obtain n where "step x = Inr n"
      unfolding step_def using rule_step_ok [OF vx assms(3) lx assms(5)] by blast
    then show ?thesis by simp
  qed
  ultimately obtain k r where kr: "calculate_next_occurrence w anchor rule = Inr (Some r)"
    "iterate_step step k anchor = Inr r" "dt_gt r (clock w)"
    "\<forall>j<k. \<exists>y. iterate_step step j anchor = Inr y \<and> dt_le y (clock w)"
    by blast
  have d: "rule = DAY \<longrightarrow> utc_us r = utc_us anchor + int k * 86400000000"
    using iterate_add_days [OF assms(2), of 1 k r] kr(2)
    by (auto simp: step_def rule_step_fun)
  have wk: "rule = WEEK \<longrightarrow> utc_us r = utc_us anchor + int k * (7 * 86400000000)"
    using iterate_add_days [OF assms(2), of 7 k r] kr(2)
    by (auto simp: step_def rule_step_fun algebra_simps)
  show ?thesis
    using kr d wk unfolding step_def by (intro exI [of _ k] exI [of _ r] conjI) assumption+
qed

text \<open>
  Claim C6. For every recurring rule, an anchor strictly after the reference instant is
  returned unchanged.
\<close>

theorem future_anchor_identity:
  assumes "rule \<noteq> NONE" "dt_gt anchor (clock w)"
  shows "calculate_next_occurrence w anchor rule = Inr (Some anchor)"
  using assms by (simp add: calculate_next_occurrence_def datetime_now_utc_def)

theorem future_anchor_identity_witness:
  "YEAR \<noteq> NONE \<and> dt_gt (utc 2030 2 28 9 30 0) (utc 2025 6 1 0 0 0) \<and>
   calculate_next_occurrence \<lparr>clock = utc 2025 6 1 0 0 0, settings = default_settings\<rparr>
     (utc 2030 2 28 9 30 0) YEAR = Inr (Some (utc 2030 2 28 9 30 0))"
  using future_anchor_identity
    [of YEAR "utc 2030 2 28 9 30 0" "\<lparr>clock = utc 2025 6 1 0 0 0, settings = default_settings\<rparr>"]
  by (simp add: eval_defs)

lemma returned_not_None: "returned x \<noteq> Inr None"
  by (cases x) (simp_all add: returned_def)

lemma next_occurrence_not_None:
  "rule \<noteq> NONE \<Longrightarrow> calculate_next_occurrence w anchor rule \<noteq> Inr None"
  by (cases rule) (simp_all add: calculate_next_occurrence_def Let_def returned_not_None)

lemma next_occurrence_returns:
  assumes "valid_datetime anchor" "valid_datetime (clock w)" "year (clock w) < 9998"
  shows "\<exists>res. calculate_next_occurrence w anchor rule = Inr res"
proof (cases "rule = NONE \<or> dt_gt anchor (clock w)")
  case True
  then show ?thesis by (auto simp: calculate_next_occurrence_def datetime_now_utc_def)
next
  case False
  then have "rule \<noteq> NONE" "dt_le anchor (clock w)" by (auto simp: dt_gt_def dt_le_def)
  from first_exceeding [OF this(1) assms(1,2) this(2) assms(3)] show ?thesis by blast
qed

text \<open>
  Claim C7, as amended. The rule \<open>NONE\<close> yields \<open>None\<close> for every anchor and reference
  instant; no other rule ever yields \<open>None\<close> (the trailing fallback is unreachable);
  and no call raises when the reference instant lies before year 9998.
\<close>

theorem none_only_for_NONE:
  "calculate_next_occurrence w anchor NONE = Inr None \<and>
   (rule \<noteq> NONE \<longrightarrow> calculate_next_occurrence w anchor rule \<noteq> Inr None) \<and>
   (valid_datetime anchor \<and> valid_datetime (clock w) \<and> year (clock w) < 9998 \<longrightarrow>
      (\<exists>res. calculate_next_occurrence w anchor rule = Inr res))"
  using next_occurrence_not_None [of rule w anchor] next_occurrence_returns [of anchor w rule]
  by (simp add: calculate_next_occurrence_def)

theorem none_only_for_NONE_witness:
  "MONTH \<noteq> NONE \<and> valid_datetime (utc 2025 1 31 12 0 0) \<and> valid_datetime (utc 2025 3 15 0 0 0) \<and>
   calculate_next_occurrence \<lparr>clock = utc 2025 3 15 0 0 0, settings = default_settings\<rparr>
     (utc 2025 1 31 12 0 0) MONTH \<noteq> Inr None \<and>
   (\<exists>res. calculate_next_occurrence \<lparr>clock = utc 2025 3 15 0 0 0, settings = default_settings\<rparr>
     (utc 2025 1 31 12 0 0) MONTH = Inr res)"
  using none_only_for_NONE
    [of "\<lparr>clock = utc 2025 3 15 0 0 0, settings = default_settings\<rparr>" "utc 2025 1 31 12 0 0" MONTH]
  by (simp add: eval_defs)

text \<open>
  The claim as stated (no error for any well-typed input) fails on the last day of year
  9999: adding one day raises \<^verbatim>\<open>OverflowError\<close>.
\<close>

theorem none_only_for_NONE_counterexample:
  "valid_datetime (utc 9999 12 31 0 0 0) \<and> valid_datetime (utc 9999 12 31 12 0 0) \<and>
   calculate_next_occurrence \<lparr>clock = utc 9999 12 31 12 0 0, settings = default_settings\<rparr>
     (utc 9999 12 31 0 0 0) DAY = Inl OverflowError"
  by (simp add: eval_defs calc_defs)

lemma advancing_loop_outcome:
  assumes r: "rule \<noteq> NONE" and va: "valid_datetime anchor" and vn: "valid_datetime (clock w)"
  shows "(\<exists>k x. calculate_next_occurrence w anchor rule = Inr (Some x) \<and>
            iterate_step (rule_step (LEAP_POLICY (settings w)) anchor rule) k anchor = Inr x \<and>
            dt_gt x (clock w))
       \<or> (\<exists>k c e. calculate_next_occurrence w anchor rule = Inl e \<and>
            iterate_step (rule_step (LEAP_POLICY (settings w)) anchor rule) k anchor = Inr c \<and>
            dt_le c (clock w) \<and>
            rule_step (LEAP_POLICY (settings w)) anchor rule c = Inl e \<and>
            9998 \<le> year (clock w))"
proof (cases "dt_gt anchor (clock w)")
  case True
  then have "calculate_next_occurrence w anchor rule = Inr (Some anchor)"
    using r by (simp add: calculate_next_occurrence_def datetime_now_utc_def)
  moreover have "iterate_step (rule_step (LEAP_POLICY (settings w)) anchor rule) 0 anchor = Inr anchor"
    by simp
  ultimately show ?thesis using True by blast
next
  case False
  then have le: "dt_le anchor (clock w)" by (simp add: dt_gt_def dt_le_def)
  show ?thesis
  proof (cases "year (clock w) < 9998")
    case True
    from first_exceeding [OF r va vn le True] show ?thesis by blast
  next
    case False
    then have "9998 \<le> year (clock w)" by simp
    then show ?thesis using next_occurrence_valid_scheme [OF r le va] by blast
  qed
qed

text \<open>
  Claim C8, as amended. For every recurring rule, anchor and reference instant: each step
  that succeeds yields a candidate strictly later than the previous one, and after
  finitely many (\<open>k\<close>) steps either the candidate exceeds the reference instant and is
  returned, or the next step leaves the range of \<^verbatim>\<open>datetime\<close> and the call
  raises, which happens only for a reference instant in year 9998 or 9999.
\<close>

theorem advancing_loop_terminates:
  assumes "rule \<noteq> NONE" "valid_datetime anchor" "valid_datetime (clock w)"
  shows "(\<forall>c n. valid_datetime c \<and> rule_step (LEAP_POLICY (settings w)) anchor rule c = Inr n \<longrightarrow>
            valid_datetime n \<and> utc_us c < utc_us n) \<and>
         ((\<exists>k r. calculate_next_occurrence w anchor rule = Inr (Some r) \<and>
             iterate_step (rule_step (LEAP_POLICY (settings w)) anchor rule) k anchor = Inr r \<and>
             dt_gt r (clock w))
          \<or> (\<exists>k c e. calculate_next_occurrence w anchor rule = Inl e \<and>
             iterate_step (rule_step (LEAP_POLICY (settings w)) anchor rule) k anchor = Inr c \<and>
             dt_le c (clock w) \<and>
             rule_step (LEAP_POLICY (settings w)) anchor rule c = Inl e \<and>
             9998 \<le> year (clock w)))"
  using rule_step_increases [OF assms(1)] advancing_loop_outcome [OF assms] by blast

theorem advancing_loop_terminates_witness:
  "\<exists>k r. calculate_next_occurrence \<lparr>clock = utc 2025 1 10 12 0 0, settings = default_settings\<rparr>
       (utc 2025 1 1 12 0 0) DAY = Inr (Some r) \<and>
     iterate_step (rule_step ''feb28'' (utc 2025 1 1 12 0 0) DAY) k (utc 2025 1 1 12 0 0) = Inr r \<and>
     dt_gt r (utc 2025 1 10 12 0 0)"
proof -
  let ?w = "\<lparr>clock = utc 2025 1 10 12 0 0, settings = default_settings\<rparr>"
  have h: "DAY \<noteq> NONE" "valid_datetime (utc 2025 1 1 12 0 0)" "valid_datetime (clock ?w)"
    by (simp_all add: eval_defs)
  have "\<not> 9998 \<le> year (clock ?w)" by (simp add: utc_def)
  with advancing_loop_terminates [OF h] show ?thesis
    by (simp add: default_settings_def)
qed

text \<open>
  The claim as stated (the function returns for every input) fails at the end of the
  range: the weekly step from 9999-12-30 raises instead of returning.
\<close>

theorem advancing_loop_terminates_counterexample:
  "valid_datetime (utc 9999 12 30 0 0 0) \<and> valid_datetime (utc 9999 12 31 12 0 0) \<and>
   calculate_next_occurrence \<lparr>clock = utc 9999 12 31 12 0 0, settings = default_settings\<rparr>
     (utc 9999 12 30 0 0 0) WEEK = Inl OverflowError"
  by (simp add: eval_defs calc_defs eval_nat_numeral)

lemma isleap_succ: "isleap y \<Longrightarrow> \<not> isleap (y + 1)"
proof -
  assume "isleap y"
  then have "y mod 4 = 0" by (simp add: isleap_def)
  then have "(y + 1) mod 4 = 1" by presburger
  then show ?thesis by (simp add: isleap_def)
qed

lemma feb29_isleap:
  assumes "valid_datetime a" "month a = 2" "day a = 29"
  shows "isleap (year a)"
  using assms by (simp add: valid_datetime_def days_in_month_def split: if_splits)

lemma year_step_substitute:
  assumes "month a = 2" "day a = 29" "valid_datetime c" "year c < MAXYEAR" "\<not> isleap (year c + 1)"
  shows "year_step p a c =
     Inr \<lparr>year = year c + 1, month = (if p = ''mar01'' then 3 else 2),
          day = (if p = ''mar01'' then 1 else 28), hour = hour c, minute = minute c,
          second = second c, microsecond = 0, utcoffset = utcoffset c\<rparr>"
proof (cases "p = ''mar01''")
  case True
  have "datetime_new (year c + 1) 3 1 (hour c) (minute c) (second c) (utcoffset c)
      = Inr \<lparr>year = year c + 1, month = 3, day = 1, hour = hour c, minute = minute c,
              second = second c, microsecond = 0, utcoffset = utcoffset c\<rparr>"
    using assms(3,4) by (intro datetime_new_ok) (simp_all add: days_in_month_def)
  then show ?thesis using assms(1,2,5) True by (simp add: year_step_def Let_def)
next
  case False
  have "datetime_new (year c + 1) 2 28 (hour c) (minute c) (second c) (utcoffset c)
      = Inr \<lparr>year = year c + 1, month = 2, day = 28, hour = hour c, minute = minute c,
              second = second c, microsecond = 0, utcoffset = utcoffset c\<rparr>"
    using assms(3,4) by (intro datetime_new_ok) (simp_all add: days_in_month_def)
  then show ?thesis using assms(1,2,5) False by (simp add: year_step_def Let_def)
qed

lemma year_step_keep:
  assumes "month a = 2" "day a = 29" "valid_datetime c" "year c < MAXYEAR" "isleap (year c + 1)"
  shows "year_step p a c = Inr (c\<lparr>year := year c + 1\<rparr>)"
proof -
  have f: "MINYEAR \<le> year c" "1 \<le> month c" "month c \<le> 12" "1 \<le> day c"
    "day c \<le> days_in_month (year c) (month c)"
    using assms(3) by (simp_all add: valid_datetime_def)
  have "replace_date c (year c + 1) (month c) (day c)
      = Inr (c\<lparr>year := year c + 1, month := month c, day := day c\<rparr>)"
    using assms(3,4) f days_in_month_leap [OF assms(5), of "year c" "month c"]
    by (intro replace_date_ok) (simp_all add: MINYEAR_def)
  then show ?thesis using assms(1,2,5) by (simp add: year_step_def Let_def)
qed

text \<open>
  A candidate of a later year than the anchor that sits on the substituted month and day
  at the anchor's hour, minute, second and offset.
\<close>

definition substituted :: "string \<Rightarrow> datetime \<Rightarrow> datetime \<Rightarrow> bool" where
  "substituted p a c \<longleftrightarrow>
     year a < year c \<and>
     month c = (if p = ''mar01'' then 3 else 2) \<and> day c = (if p = ''mar01'' then 1 else 28) \<and>
     hour c = hour a \<and> minute c = minute a \<and> second c = second a \<and>
     utcoffset c = utcoffset a \<and> microsecond c = 0"

lemma year_step_feb29_invariant:
  assumes a: "valid_datetime a" "month a = 2" "day a = 29"
    and c: "valid_datetime c" "c = a \<or> substituted p a c"
    and s: "year_step p a c = Inr n"
  shows "substituted p a n"
proof -
  have yn: "valid_datetime n" "year n = year c + 1" using year_step_year [OF s] by simp_all
  then have yc: "year c < MAXYEAR" by (simp add: valid_datetime_def)
  show ?thesis
  proof (cases "isleap (year c + 1)")
    case True
    have "c \<noteq> a" using True isleap_succ [OF feb29_isleap [OF a]] by auto
    then have sub: "substituted p a c" using c(2) by simp
    have "n = c\<lparr>year := year c + 1\<rparr>"
      using year_step_keep [OF a(2,3) c(1) yc True, of p] s by simp
    then show ?thesis using sub by (simp add: substituted_def)
  next
    case False
    have "n = \<lparr>year = year c + 1, month = (if p = ''mar01'' then 3 else 2),
          day = (if p = ''mar01'' then 1 else 28), hour = hour c, minute = minute c,
          second = second c, microsecond = 0, utcoffset = utcoffset c\<rparr>"
      using year_step_substitute [OF a(2,3) c(1) yc False, of p] s by simp
    then show ?thesis using c(2) by (auto simp: substituted_def)
  qed
qed

lemma feb29_outcome:
  assumes a: "valid_datetime a" "month a = 2" "day a = 29" and le: "dt_le a (clock w)"
    and res: "calculate_next_occurrence w a YEAR = Inr (Some r)"
  shows "substituted (LEAP_POLICY (settings w)) a r"
proof -
  define p where "p = LEAP_POLICY (settings w)"
  define I where "I c \<longleftrightarrow> valid_datetime c \<and> (c = a \<or> substituted p a c)" for c
  have inv: "I n \<and> utc_us c < utc_us n"
    if c: "I c" and s: "rule_step (LEAP_POLICY (settings w)) a YEAR c = Inr n" for c n
  proof -
    have vc: "valid_datetime c" and ca: "c = a \<or> substituted p a c" using c by (simp_all add: I_def)
    have s': "year_step p a c = Inr n" using s by (simp add: rule_step_def p_def)
    show ?thesis
      using year_step_feb29_invariant [OF a vc ca s'] year_step_year [OF s'] year_step_less [OF vc s']
      by (simp add: I_def)
  qed
  have "I a" using a(1) by (simp add: I_def)
  from next_occurrence_scheme [where I = I, OF _ le inv this]
  have "\<exists>x. calculate_next_occurrence w a YEAR = Inr (Some x) \<and> dt_gt x (clock w) \<and> I x"
    using res by fastforce
  then have "dt_gt r (clock w)" "I r" using res by simp_all
  moreover have "r \<noteq> a" using \<open>dt_gt r (clock w)\<close> le by (auto simp: dt_gt_def dt_le_def)
  ultimately show ?thesis by (simp add: I_def p_def)
qed

text \<open>
  What the \<open>YEAR\<close> loop does with an anchor on February 29 that is not after the
  reference instant. A candidate whose next year is not a leap year is replaced by
  February 28 of that year (any policy but \<^verbatim>\<open>mar01\<close>) or March 1 of that year (policy
  \<^verbatim>\<open>mar01\<close>) at the hour, minute, second and offset of the candidate, with the
  microsecond set to zero. A candidate whose next year is a leap year only has its year
  increased, so it keeps the substituted month and day: February 29 is never restored.
\<close>

lemma feb29_behaviour:
  assumes "valid_datetime anchor" "month anchor = 2" "day anchor = 29"
    "valid_datetime (clock w)" "dt_le anchor (clock w)"
  shows "(\<forall>c. valid_datetime c \<and> year c < MAXYEAR \<and> \<not> isleap (year c + 1) \<longrightarrow>
            year_step (LEAP_POLICY (settings w)) anchor c =
              Inr \<lparr>year = year c + 1,
                   month = (if LEAP_POLICY (settings w) = ''mar01'' then 3 else 2),
                   day = (if LEAP_POLICY (settings w) = ''mar01'' then 1 else 28),
                   hour = hour c, minute = minute c, second = second c,
                   microsecond = 0, utcoffset = utcoffset c\<rparr>) \<and>
         (\<forall>c. valid_datetime c \<and> year c < MAXYEAR \<and> isleap (year c + 1) \<longrightarrow>
            year_step (LEAP_POLICY (settings w)) anchor c = Inr (c\<lparr>year := year c + 1\<rparr>)) \<and>
         (\<forall>r. calculate_next_occurrence w anchor YEAR = Inr (Some r) \<longrightarrow>
            year anchor < year r \<and>
            month r = (if LEAP_POLICY (settings w) = ''mar01'' then 3 else 2) \<and>
            day r = (if LEAP_POLICY (settings w) = ''mar01'' then 1 else 28) \<and>
            hour r = hour anchor \<and> minute r = minute anchor \<and> second r = second anchor \<and>
            utcoffset r = utcoffset anchor \<and> microsecond r = 0) \<and>
         (year (clock w) < 9998 \<longrightarrow>
            (\<exists>r. calculate_next_occurrence w anchor YEAR = Inr (Some r)))"
proof -
  have c1: "\<forall>c. valid_datetime c \<and> year c < MAXYEAR \<and> \<not> isleap (year c + 1) \<longrightarrow>
            year_step (LEAP_POLICY (settings w)) anchor c =
              Inr \<lparr>year = year c + 1,
                   month = (if LEAP_POLICY (settings w) = ''mar01'' then 3 else 2),
                   day = (if LEAP_POLICY (settings w) = ''mar01'' then 1 else 28),
                   hour = hour c, minute = minute c, second = second c,
                   microsecond = 0, utcoffset = utcoffset c\<rparr>"
    using year_step_substitute [OF assms(2,3)] by blast
  have c2: "\<forall>c. valid_datetime c \<and> year c < MAXYEAR \<and> isleap (year c + 1) \<longrightarrow>
            year_step (LEAP_POLICY (settings w)) anchor c = Inr (c\<lparr>year := year c + 1\<rparr>)"
    using year_step_keep [OF assms(2,3)] by blast
  have c3: "\<forall>r. calculate_next_occurrence w anchor YEAR = Inr (Some r) \<longrightarrow>
            year anchor < year r \<and>
            month r = (if LEAP_POLICY (settings w) = ''mar01'' then 3 else 2) \<and>
            day r = (if LEAP_POLICY (settings w) = ''mar01'' then 1 else 28) \<and>
            hour r = hour anchor \<and> minute r = minute anchor \<and> second r = second anchor \<and>
            utcoffset r = utcoffset anchor \<and> microsecond r = 0"
  proof (intro allI impI)
    fix r
    assume "calculate_next_occurrence w anchor YEAR = Inr (Some r)"
    from feb29_outcome [OF assms(1,2,3,5) this]
    show "year anchor < year r \<and>
        month r = (if LEAP_POLICY (settings w) = ''mar01'' then 3 else 2) \<and>
        day r = (if LEAP_POLICY (settings w) = ''mar01'' then 1 else 28) \<and>
        hour r = hour anchor \<and> minute r = minute anchor \<and> second r = second anchor \<and>
        utcoffset r = utcoffset anchor \<and> microsecond r = 0"
      unfolding substituted_def .
  qed
  have c4: "year (clock w) < 9998 \<longrightarrow>
            (\<exists>r. calculate_next_occurrence w anchor YEAR = Inr (Some r))"
  proof
    assume "year (clock w) < 9998"
    from first_exceeding [OF _ assms(1,4,5) this]
    show "\<exists>r. calculate_next_occurrence w anchor YEAR = Inr (Some r)" by blast
  qed
  show ?thesis using c1 c2 c3 c4 by (intro conjI)
qed

text \<open>
  The anchor 2024-02-29T12:00Z read in June 2027 comes back on February 28 of the leap
  year 2028, and on March 1 of 2028 with the policy \<^verbatim>\<open>mar01\<close>.
\<close>

lemma feb29_feb28_example:
  "calculate_next_occurrence \<lparr>clock = utc 2027 6 1 0 0 0, settings = default_settings\<rparr>
     (utc 2024 2 29 12 0 0) YEAR = Inr (Some (utc 2028 2 28 12 0 0)) \<and> isleap 2028"
  by (simp add: eval_defs calc_defs)

lemma feb29_mar01_example:
  "calculate_next_occurrence
     \<lparr>clock = utc 2027 6 1 0 0 0, settings = default_settings\<lparr>LEAP_POLICY := ''mar01''\<rparr>\<rparr>
     (utc 2024 2 29 12 0 0) YEAR = Inr (Some (utc 2028 3 1 12 0 0))"
  by (simp add: eval_defs calc_defs)

section \<open>The sequence of scheduled occurrences\<close>

text \<open>
  The sequence \<open>anchor\<close>, \<open>anchor + step\<close>, \<open>anchor + 2 * step\<close>, ... of the
  specification, each element computed from the anchor alone and not from its
  predecessor. \<open>add_months k\<close> and \<open>add_years k\<close> are calendar-aware addition of
  \<open>k\<close> months or years (\<^verbatim>\<open>relativedelta(months=k)\<close>, \<^verbatim>\<open>relativedelta(years=k)\<close>):
  the day of the month is kept when the target month has enough days and clamped to its
  last day otherwise.
\<close>

definition add_months :: "nat \<Rightarrow> datetime \<Rightarrow> error + datetime" where
  "add_months k other =
     (let t = month other - 1 + int k;
          y = year other + t div 12;
          m = t mod 12 + 1;
          d = min (days_in_month y m) (day other)
      in replace_date other y m d)"

definition add_years :: "nat \<Rightarrow> datetime \<Rightarrow> error + datetime" where
  "add_years k other =
     (let y = year other + int k;
          d = min (days_in_month y (month other)) (day other)
      in replace_date other y (month other) d)"

text \<open>
  The \<open>k\<close>-th scheduled occurrence: the anchor plus \<open>k\<close> days, \<open>7 * k\<close> days,
  \<open>k\<close> months or \<open>k\<close> years; for an anchor on February 29 under \<open>YEAR\<close>, every
  later element is the date of the leap policy in year \<open>year anchor + k\<close> at the
  anchor's time of day.
\<close>

definition nth_occurrence :: "string \<Rightarrow> RepeatInterval \<Rightarrow> datetime \<Rightarrow> nat \<Rightarrow> error + datetime" where
  "nth_occurrence leap_policy rule anchor k =
     (case rule of
        NONE \<Rightarrow> Inr anchor
      | DAY \<Rightarrow> add_days k anchor
      | WEEK \<Rightarrow> add_days (7 * k) anchor
      | MONTH \<Rightarrow> add_months k anchor
      | YEAR \<Rightarrow>
          if month anchor = 2 \<and> day anchor = 29 \<and> 0 < k then
            replace_date anchor (year anchor + int k)
              (if leap_policy = ''mar01'' then 3 else 2)
              (if leap_policy = ''mar01'' then 1 else 28)
          else add_years k anchor)"



















text \<open>Unfolding set for evaluating the sequence of the specification.\<close>

lemmas nth_defs =
  nth_occurrence_def add_months_def add_years_def replace_date_def Let_def

text \<open>
  Claim C2 (under \<open>MONTH\<close> the returned occurrence falls on the anchor's day of the
  month whenever its month has that many days: no day drift). The code breaks it: the
  anchor 2025-01-31T12:00Z read on 2025-03-15 comes back on March 28, although March has
  31 days and the anchor plus two months is March 31.
\<close>

theorem monthly_day_drift:
  "valid_datetime (utc 2025 1 31 12 0 0) \<and> valid_datetime (utc 2025 3 15 0 0 0) \<and>
   dt_le (utc 2025 1 31 12 0 0) (utc 2025 3 15 0 0 0) \<and>
   calculate_next_occurrence \<lparr>clock = utc 2025 3 15 0 0 0, settings = default_settings\<rparr>
     (utc 2025 1 31 12 0 0) MONTH = Inr (Some (utc 2025 3 28 12 0 0)) \<and>
   days_in_month 2025 3 = 31 \<and>
   nth_occurrence ''feb28'' MONTH (utc 2025 1 31 12 0 0) 2 = Inr (utc 2025 3 31 12 0 0)"
  by (simp add: eval_defs calc_defs nth_defs)

text \<open>
  Claim C4 (a February 29 anchor is moved, in a year that is not a leap year, to the date
  of the leap policy at the anchor's wall-clock time). The code breaks it for an anchor
  with a sub-second part: the candidate for 2025 of the anchor 2024-02-29T12:00:00.5Z is
  2025-02-28T12:00:00Z, so a call at 2025-02-28T12:00:00.2Z finds it not after the
  reference instant and returns 2026-02-28T12:00:00Z, while February 28, 2025 at the
  anchor's time 12:00:00.5 is after the reference instant.
\<close>

theorem feb29_subsecond_dropped:
  "valid_datetime ((utc 2024 2 29 12 0 0)\<lparr>microsecond := 500000\<rparr>) \<and>
   valid_datetime ((utc 2025 2 28 12 0 0)\<lparr>microsecond := 200000\<rparr>) \<and>
   dt_le ((utc 2024 2 29 12 0 0)\<lparr>microsecond := 500000\<rparr>)
     ((utc 2025 2 28 12 0 0)\<lparr>microsecond := 200000\<rparr>) \<and>
   year_step ''feb28'' ((utc 2024 2 29 12 0 0)\<lparr>microsecond := 500000\<rparr>)
     ((utc 2024 2 29 12 0 0)\<lparr>microsecond := 500000\<rparr>) = Inr (utc 2025 2 28 12 0 0) \<and>
   calculate_next_occurrence
     \<lparr>clock = (utc 2025 2 28 12 0 0)\<lparr>microsecond := 200000\<rparr>, settings = default_settings\<rparr>
     ((utc 2024 2 29 12 0 0)\<lparr>microsecond := 500000\<rparr>) YEAR = Inr (Some (utc 2026 2 28 12 0 0)) \<and>
   dt_gt ((utc 2025 2 28 12 0 0)\<lparr>microsecond := 500000\<rparr>)
     ((utc 2025 2 28 12 0 0)\<lparr>microsecond := 200000\<rparr>)"
  by (simp add: eval_defs calc_defs)

section \<open>Dependence on the clock and the settings\<close>

lemma year_step_policy:
  "(p1 = ''mar01'') = (p2 = ''mar01'') \<Longrightarrow> year_step p1 a c = year_step p2 a c"
  by (cases "p1 = ''mar01''") (simp_all add: year_step_def Let_def)

lemma loop_year_policy:
  "(p1 = ''mar01'') = (p2 = ''mar01'') \<Longrightarrow> loop_year p1 a now c = loop_year p2 a now c"
proof (induction p1 a now c rule: loop_year.induct)
  case (1 p a now c)
  note st = year_step_policy [OF "1.prems", of a c]
  show ?case
  proof (cases "dt_le c now")
    case False
    then show ?thesis by (simp add: loop_year.simps [of _ a now c])
  next
    case True
    show ?thesis
    proof (cases "year_step p a c")
      case (Inl e)
      have l1: "loop_year p a now c = Inl e"
        using True Inl by (subst loop_year.simps) simp
      have s2: "year_step p2 a c = Inl e" using st Inl by simp
      have l2: "loop_year p2 a now c = Inl e"
        using True s2 by (subst loop_year.simps) simp
      show ?thesis using l1 l2 by simp
    next
      case (Inr n)
      have ih: "loop_year p a now n = loop_year p2 a now n" using "1.IH" [OF True Inr "1.prems"] .
      have l1: "loop_year p a now c = loop_year p a now n"
        using True Inr by (subst loop_year.simps) simp
      have s2: "year_step p2 a c = Inr n" using st Inr by simp
      have l2: "loop_year p2 a now c = loop_year p2 a now n"
        using True s2 by (subst loop_year.simps) simp
      show ?thesis using l1 l2 ih by simp
    qed
  qed
qed

text \<open>
  Claim C3, as amended. \<open>calculate_next_occurrence\<close> takes the anchor and the rule; the
  reference instant is not a parameter, it is read from the wall clock inside the call,
  and the leap policy is read from the process-wide settings. The result is a function
  of the anchor, the rule, the instant read from the clock and whether the leap policy
  is \<^verbatim>\<open>mar01\<close>, and of nothing else: two invocations with the same anchor and rule
  that read the same instant under the same policy return the same result.
\<close>

theorem next_occurrence_determined:
  assumes "clock w1 = clock w2"
    "(LEAP_POLICY (settings w1) = ''mar01'') = (LEAP_POLICY (settings w2) = ''mar01'')"
  shows "calculate_next_occurrence w1 anchor rule = calculate_next_occurrence w2 anchor rule"
  using assms(1) loop_year_policy [OF assms(2), of anchor "clock w2" anchor]
  by (simp add: calculate_next_occurrence_def datetime_now_utc_def Let_def)

theorem next_occurrence_determined_witness:
  "\<lparr>clock = utc 2027 6 1 0 0 0, settings = default_settings\<rparr> \<noteq>
     \<lparr>clock = utc 2027 6 1 0 0 0,
      settings = \<lparr>DEFAULT_TIMEZONE = ''UTC'', RATE_LIMIT_PER_MINUTE = 10, LEAP_POLICY = ''''\<rparr>\<rparr> \<and>
   calculate_next_occurrence \<lparr>clock = utc 2027 6 1 0 0 0, settings = default_settings\<rparr>
     (utc 2024 2 29 12 0 0) YEAR =
   calculate_next_occurrence
     \<lparr>clock = utc 2027 6 1 0 0 0,
      settings = \<lparr>DEFAULT_TIMEZONE = ''UTC'', RATE_LIMIT_PER_MINUTE = 10, LEAP_POLICY = ''''\<rparr>\<rparr>
     (utc 2024 2 29 12 0 0) YEAR"
  using next_occurrence_determined
    [of "\<lparr>clock = utc 2027 6 1 0 0 0, settings = default_settings\<rparr>"
        "\<lparr>clock = utc 2027 6 1 0 0 0,
          settings = \<lparr>DEFAULT_TIMEZONE = ''UTC'', RATE_LIMIT_PER_MINUTE = 10, LEAP_POLICY = ''''\<rparr>\<rparr>"
        "utc 2024 2 29 12 0 0" YEAR]
  by (simp add: default_settings_def)

text \<open>
  The claim as stated (a function of its explicit inputs, with no clock read) fails: the
  same anchor and rule give different results when the call runs one day later.
\<close>

theorem next_occurrence_determined_counterexample:
  "calculate_next_occurrence \<lparr>clock = utc 2025 1 10 12 0 0, settings = default_settings\<rparr>
     (utc 2025 1 1 12 0 0) DAY \<noteq>
   calculate_next_occurrence \<lparr>clock = utc 2025 1 11 12 0 0, settings = default_settings\<rparr>
     (utc 2025 1 1 12 0 0) DAY"
  by (simp add: eval_defs calc_defs)

section \<open>Colour buckets\<close>

text \<open>\<^verbatim>\<open>EventService.get_color_bucket\<close>; Python's \<^verbatim>\<open>int\<close> is unbounded.\<close>

definition get_color_bucket :: "int \<Rightarrow> ColorBucket option" where
  "get_color_bucket remaining_seconds =
     (if remaining_seconds < 0 then None
      else if remaining_seconds < 86400 then Some RED
      else if remaining_seconds < 7 * 86400 then Some ORANGE
      else if remaining_seconds < 30 * 86400 then Some YELLOW
      else if remaining_seconds < 90 * 86400 then Some GREEN
      else if remaining_seconds < 365 * 86400 then Some CYAN
      else if remaining_seconds < 3 * 365 * 86400 then Some BLUE
      else Some PURPLE)"

text \<open>
  Claim C1. With \<open>D = 86400\<close>, \<open>get_color_bucket\<close> is exactly the table with half-open
  intervals: no bucket below zero, \<open>RED\<close> on \<open>[0, D)\<close>, \<open>ORANGE\<close> on \<open>[D, 7D)\<close>,
  \<open>YELLOW\<close> on \<open>[7D, 30D)\<close>, \<open>GREEN\<close> on \<open>[30D, 90D)\<close>, \<open>CYAN\<close> on \<open>[90D, 365D)\<close>,
  \<open>BLUE\<close> on \<open>[365D, 3 * 365D)\<close> and \<open>PURPLE\<close> from \<open>3 * 365D\<close> on; each bucket is
  returned on its interval and nowhere else, so every boundary value belongs to the
  higher tier.
\<close>

theorem get_color_bucket_table:
  fixes r :: int
  shows "(get_color_bucket r = None \<longleftrightarrow> r < 0)
       \<and> (get_color_bucket r = Some RED \<longleftrightarrow> 0 \<le> r \<and> r < 86400)
       \<and> (get_color_bucket r = Some ORANGE \<longleftrightarrow> 86400 \<le> r \<and> r < 7 * 86400)
       \<and> (get_color_bucket r = Some YELLOW \<longleftrightarrow> 7 * 86400 \<le> r \<and> r < 30 * 86400)
       \<and> (get_color_bucket r = Some GREEN \<longleftrightarrow> 30 * 86400 \<le> r \<and> r < 90 * 86400)
       \<and> (get_color_bucket r = Some CYAN \<longleftrightarrow> 90 * 86400 \<le> r \<and> r < 365 * 86400)
       \<and> (get_color_bucket r = Some BLUE \<longleftrightarrow> 365 * 86400 \<le> r \<and> r < 3 * 365 * 86400)
       \<and> (get_color_bucket r = Some PURPLE \<longleftrightarrow> 3 * 365 * 86400 \<le> r)
       \<and> get_color_bucket 86399 = Some RED
       \<and> get_color_bucket 86400 = Some ORANGE
       \<and> get_color_bucket (7 * 86400 - 1) = Some ORANGE
       \<and> get_color_bucket (7 * 86400) = Some YELLOW
       \<and> get_color_bucket (30 * 86400) = Some GREEN
       \<and> get_color_bucket (90 * 86400) = Some CYAN
       \<and> get_color_bucket (365 * 86400) = Some BLUE
       \<and> get_color_bucket (3 * 365 * 86400) = Some PURPLE"
  unfolding get_color_bucket_def by simp

section \<open>Enriched events, ranking and partition\<close>

text \<open>
  \<^verbatim>\<open>calculate_remaining_seconds\<close>: the difference of two aware datetimes is exact, in
  microseconds; \<^verbatim>\<open>int(delta.total_seconds())\<close> truncates toward zero. Python divides in
  floating point here; this is the exact quotient, which the float agrees with while the
  difference is below \<open>2 ^ 34\<close> seconds (about 544 years). The properties proved
  below hold whatever the value is.
\<close>

definition calculate_remaining_seconds :: "datetime \<Rightarrow> datetime \<Rightarrow> int" where
  "calculate_remaining_seconds effective_due_at server_now =
     (let delta = utc_us effective_due_at - utc_us server_now
      in if delta < 0 then - ((- delta) div 1000000) else delta div 1000000)"

text \<open>
  \<^verbatim>\<open>app/models/event.py\<close>, \<^verbatim>\<open>app/models/attachment.py\<close>: the columns of an event and
  of an attachment that \<^verbatim>\<open>enrich_event\<close> reads (UUIDs as strings).
\<close>

record Event =
  id' :: string
  user_id :: string
  title :: string
  description :: "string option"
  event_date :: datetime
  repeat_interval :: RepeatInterval
  timezone :: "string option"
  created_at :: datetime
  updated_at :: datetime

datatype Attachment =
  Attachment (att_id: string) (storage_key: string) (mime: string) (att_size: "int option")
    (width: "int option") (height: "int option") (duration: "int option")

text \<open>
  \<^verbatim>\<open>AttachmentResponse\<close> of \<^verbatim>\<open>app/schemas/event.py\<close>: id, name, mime, size, url,
  thumb_url, width, height, duration.
\<close>

datatype AttachmentResponse =
  AttachmentResponse string string string int string "string option" "int option" "int option"
    "int option"

text \<open>
  The dict that \<^verbatim>\<open>enrich_event\<close> returns has a fixed set of keys: the keys copied from
  the event and the computed ones.
\<close>

record EnrichedEvent = Event +
  next_occurrence :: "datetime option"
  effective_due_at :: datetime
  remaining_seconds :: int
  color_bucket :: "ColorBucket option"
  is_overdue :: bool
  attachments :: "AttachmentResponse list"

text \<open>\<^verbatim>\<open>storage_key.split('/')[-1]\<close>: what follows the last slash.\<close>

definition last_segment :: "string \<Rightarrow> string" where
  "last_segment s = rev (takeWhile (\<lambda>c. c \<noteq> CHR ''/'') (rev s))"

definition attachment_response :: "Attachment \<Rightarrow> string \<Rightarrow> error + AttachmentResponse" where
  "attachment_response att url =
     (case att_size att of
        None \<Rightarrow> Inl ValidationError
      | Some sz \<Rightarrow>
          Inr (AttachmentResponse (att_id att) (last_segment (storage_key att)) (mime att) sz url
                 None (width att) (height att) (duration att)))"

fun attachment_responses ::
    "(string \<Rightarrow> error + string) \<Rightarrow> Attachment list \<Rightarrow> error + AttachmentResponse list" where
  "attachment_responses generate_signed_url [] = Inr []"
| "attachment_responses generate_signed_url (att # atts) =
     (case generate_signed_url (storage_key att) of
        Inl e \<Rightarrow> Inl e
      | Inr url \<Rightarrow>
          (case attachment_response att url of
             Inl e \<Rightarrow> Inl e
           | Inr r \<Rightarrow>
               (case attachment_responses generate_signed_url atts of
                  Inl e \<Rightarrow> Inl e
                | Inr rs \<Rightarrow> Inr (r # rs))))"

text \<open>
  \<^verbatim>\<open>EventService.enrich_event\<close>. The next occurrence is computed against the wall clock
  of the world, the remaining seconds against the parameter \<^verbatim>\<open>server_now\<close>.
\<close>

definition enrich_event ::
    "world \<Rightarrow> Event \<Rightarrow> datetime \<Rightarrow> Attachment list option \<Rightarrow>
     (string \<Rightarrow> error + string) option \<Rightarrow> error + EnrichedEvent" where
  "enrich_event w event server_now atts storage_service =
     (case (if repeat_interval event \<noteq> NONE
            then calculate_next_occurrence w (event_date event) (repeat_interval event)
            else Inr None) of
        Inl e \<Rightarrow> Inl e
      | Inr next_occ \<Rightarrow>
          (let effective_due = (case next_occ of Some d \<Rightarrow> d | None \<Rightarrow> event_date event);
               remaining = calculate_remaining_seconds effective_due server_now;
               bucket = get_color_bucket remaining;
               overdue = (remaining < 0)
           in case (case (atts, storage_service) of
                      (Some (a # as), Some svc) \<Rightarrow> attachment_responses (svc) (a # as)
                    | _ \<Rightarrow> Inr []) of
                Inl e \<Rightarrow> Inl e
              | Inr attachment_rs \<Rightarrow>
                  Inr \<lparr>id' = id' event, user_id = user_id event, title = title event,
                       description = description event, event_date = event_date event,
                       repeat_interval = repeat_interval event, timezone = timezone event,
                       created_at = created_at event, updated_at = updated_at event,
                       next_occurrence = next_occ, effective_due_at = effective_due,
                       remaining_seconds = remaining, color_bucket = bucket,
                       is_overdue = overdue, attachments = attachment_rs\<rparr>))"

text \<open>
  \<^verbatim>\<open>sort_events_by_remaining_time\<close>: Python's \<^verbatim>\<open>sorted\<close> with a key is a stable
  ascending sort; the result of a stable sort is determined by the input, so it is the
  result of the stable insertion sort \<open>sort_key\<close>.
\<close>

definition sort_events_by_remaining_time :: "EnrichedEvent list \<Rightarrow> EnrichedEvent list" where
  "sort_events_by_remaining_time enriched_events = sort_key remaining_seconds enriched_events"

text \<open>\<^verbatim>\<open>filter_overdue\<close>: two list comprehensions over the same list.\<close>

definition filter_overdue :: "EnrichedEvent list \<Rightarrow> EnrichedEvent list \<times> EnrichedEvent list" where
  "filter_overdue enriched_events =
     (let upcoming = [e \<leftarrow> enriched_events. \<not> is_overdue e];
          overdue = [e \<leftarrow> enriched_events. is_overdue e]
      in (upcoming, overdue))"

lemma sorted_key_split:
  "sorted (map f xs) \<Longrightarrow> xs = [x \<leftarrow> xs. f x < (t::int)] @ [x \<leftarrow> xs. \<not> f x < t]"
proof (induction xs)
  case Nil
  then show ?case by simp
next
  case (Cons x xs)
  then have ih: "xs = [x \<leftarrow> xs. f x < t] @ [x \<leftarrow> xs. \<not> f x < t]" by simp
  show ?case
  proof (cases "f x < t")
    case True
    then show ?thesis using ih by simp
  next
    case False
    then have "\<forall>y \<in> set xs. \<not> f y < t" using Cons.prems by auto
    then have "[x \<leftarrow> xs. f x < t] = []" "[x \<leftarrow> xs. \<not> f x < t] = xs"
      by (simp_all add: filter_empty_conv)
    then show ?thesis using False by simp
  qed
qed

text \<open>
  Claim C9. For every list of enriched events the result is a permutation of the input,
  ascending by \<open>remaining_seconds\<close>, and stable: for every value \<open>k\<close> the events whose
  \<open>remaining_seconds\<close> is \<open>k\<close> come out in their input order, so three tied events
  \<open>[a, b, c]\<close> come out as \<open>[a, b, c]\<close>. Overdue events get no special place: the
  result is its events with negative \<open>remaining_seconds\<close> followed by the others.
\<close>

theorem sort_events_stable:
  "mset (sort_events_by_remaining_time es) = mset es \<and>
   sorted (map remaining_seconds (sort_events_by_remaining_time es)) \<and>
   (\<forall>k. [e \<leftarrow> sort_events_by_remaining_time es. remaining_seconds e = k]
        = [e \<leftarrow> es. remaining_seconds e = k]) \<and>
   (remaining_seconds a = remaining_seconds b \<and> remaining_seconds b = remaining_seconds c \<longrightarrow>
      sort_events_by_remaining_time [a, b, c] = [a, b, c]) \<and>
   sort_events_by_remaining_time es =
     [e \<leftarrow> sort_events_by_remaining_time es. remaining_seconds e < 0] @
     [e \<leftarrow> sort_events_by_remaining_time es. \<not> remaining_seconds e < 0]"
proof -
  have "sorted (map remaining_seconds (sort_events_by_remaining_time es))"
    by (simp add: sort_events_by_remaining_time_def)
  from sorted_key_split [OF this, of 0] show ?thesis
    by (simp add: sort_events_by_remaining_time_def sort_key_stable)
qed

text \<open>A dict with the given title and remaining seconds, for concrete inputs.\<close>

definition sample_enriched :: "string \<Rightarrow> int \<Rightarrow> EnrichedEvent" where
  "sample_enriched name remaining =
     \<lparr>id' = name, user_id = ''u1'', title = name, description = None,
      event_date = utc 2025 1 1 12 0 0, repeat_interval = NONE, timezone = None,
      created_at = utc 2024 12 1 0 0 0, updated_at = utc 2024 12 1 0 0 0,
      next_occurrence = None, effective_due_at = utc 2025 1 1 12 0 0,
      remaining_seconds = remaining, color_bucket = get_color_bucket remaining,
      is_overdue = (remaining < 0), attachments = []\<rparr>"

theorem sort_events_stable_witness:
  "sort_events_by_remaining_time
     [sample_enriched ''A'' 3600, sample_enriched ''B'' 3600, sample_enriched ''C'' 3600]
   = [sample_enriched ''A'' 3600, sample_enriched ''B'' 3600, sample_enriched ''C'' 3600]"
  using sort_events_stable
    [of "[sample_enriched ''A'' 3600, sample_enriched ''B'' 3600, sample_enriched ''C'' 3600]"
        "sample_enriched ''A'' 3600" "sample_enriched ''B'' 3600" "sample_enriched ''C'' 3600"]
  by (simp add: sample_enriched_def)

lemma enrich_event_fields:
  assumes "enrich_event w event server_now atts storage_service = Inr e"
  shows "color_bucket e = get_color_bucket (remaining_seconds e)"
    and "is_overdue e = (remaining_seconds e < 0)"
proof -
  obtain next_occ attachment_rs where
    "e = \<lparr>id' = id' event, user_id = user_id event, title = title event,
          description = description event, event_date = event_date event,
          repeat_interval = repeat_interval event, timezone = timezone event,
          created_at = created_at event, updated_at = updated_at event,
          next_occurrence = next_occ,
          effective_due_at = (case next_occ of Some d \<Rightarrow> d | None \<Rightarrow> event_date event),
          remaining_seconds = calculate_remaining_seconds
             (case next_occ of Some d \<Rightarrow> d | None \<Rightarrow> event_date event) server_now,
          color_bucket = get_color_bucket (calculate_remaining_seconds
             (case next_occ of Some d \<Rightarrow> d | None \<Rightarrow> event_date event) server_now),
          is_overdue = (calculate_remaining_seconds
             (case next_occ of Some d \<Rightarrow> d | None \<Rightarrow> event_date event) server_now < 0),
          attachments = attachment_rs\<rparr>"
    using assms unfolding enrich_event_def Let_def by (auto split: sum.splits)
  then show "color_bucket e = get_color_bucket (remaining_seconds e)"
    and "is_overdue e = (remaining_seconds e < 0)" by simp_all
qed

lemma bucket_None_iff: "get_color_bucket r = None \<longleftrightarrow> r < 0"
  by (simp add: get_color_bucket_def)

text \<open>
  Claim C10. A dict produced by \<open>enrich_event\<close> is coherent: \<open>is_overdue\<close> is
  \<open>remaining_seconds < 0\<close>, \<open>color_bucket\<close> is absent exactly when \<open>is_overdue\<close>
  holds, and \<open>remaining_seconds = 0\<close> gives an upcoming event with bucket \<open>RED\<close>.
  Hence, on a list of such dicts, \<open>filter_overdue\<close> puts in the overdue part exactly the
  events without a bucket and in the upcoming part exactly those with one; the two parts
  together hold every input element once, no element is in both, and each part keeps the
  input order.
\<close>

theorem enrich_event_coherent:
  "(enrich_event w event server_now atts storage_service = Inr e \<longrightarrow>
      is_overdue e = (remaining_seconds e < 0) \<and>
      (color_bucket e = None \<longleftrightarrow> is_overdue e) \<and>
      (remaining_seconds e = 0 \<longrightarrow> \<not> is_overdue e \<and> color_bucket e = Some RED)) \<and>
   ((\<forall>x \<in> set es. \<exists>w' ev now' atts' svc'. enrich_event w' ev now' atts' svc' = Inr x) \<longrightarrow>
      snd (filter_overdue es) = [x \<leftarrow> es. color_bucket x = None] \<and>
      fst (filter_overdue es) = [x \<leftarrow> es. color_bucket x \<noteq> None] \<and>
      mset (fst (filter_overdue es)) + mset (snd (filter_overdue es)) = mset es \<and>
      set (fst (filter_overdue es)) \<inter> set (snd (filter_overdue es)) = {} \<and>
      subseq (fst (filter_overdue es)) es \<and> subseq (snd (filter_overdue es)) es)"
proof (intro conjI impI)
  assume a: "enrich_event w event server_now atts storage_service = Inr e"
  show "is_overdue e = (remaining_seconds e < 0)" using enrich_event_fields(2) [OF a] .
  show "color_bucket e = None \<longleftrightarrow> is_overdue e"
    using enrich_event_fields [OF a] by (simp add: bucket_None_iff)
  assume "remaining_seconds e = 0"
  then show "\<not> is_overdue e" "color_bucket e = Some RED"
    using enrich_event_fields [OF a] by (simp_all add: get_color_bucket_def)
next
  assume "\<forall>x \<in> set es. \<exists>w' ev now' atts' svc'. enrich_event w' ev now' atts' svc' = Inr x"
  then have coh: "\<forall>x \<in> set es. (color_bucket x = None) = is_overdue x"
    using enrich_event_fields by (metis bucket_None_iff)
  have "[x \<leftarrow> es. is_overdue x] = [x \<leftarrow> es. color_bucket x = None]"
    by (rule filter_cong) (use coh in simp_all)
  then show "snd (filter_overdue es) = [x \<leftarrow> es. color_bucket x = None]"
    by (simp add: filter_overdue_def)
  have "[x \<leftarrow> es. \<not> is_overdue x] = [x \<leftarrow> es. color_bucket x \<noteq> None]"
    by (rule filter_cong) (use coh in simp_all)
  then show "fst (filter_overdue es) = [x \<leftarrow> es. color_bucket x \<noteq> None]"
    by (simp add: filter_overdue_def)
  show "mset (fst (filter_overdue es)) + mset (snd (filter_overdue es)) = mset es"
    by (simp add: filter_overdue_def)
  show "set (fst (filter_overdue es)) \<inter> set (snd (filter_overdue es)) = {}"
    by (auto simp: filter_overdue_def)
  show "subseq (fst (filter_overdue es)) es" "subseq (snd (filter_overdue es)) es"
    by (simp_all add: filter_overdue_def)
qed

text \<open>A non-recurring event with the given title and date, for concrete inputs.\<close>

definition sample_event :: "string \<Rightarrow> datetime \<Rightarrow> Event" where
  "sample_event name date =
     \<lparr>id' = name, user_id = ''u1'', title = name, description = None,
      event_date = date, repeat_interval = NONE, timezone = None,
      created_at = utc 2024 12 1 0 0 0, updated_at = utc 2024 12 1 0 0 0\<rparr>"

theorem enrich_event_coherent_witness:
  "\<exists>e1 e2.
     enrich_event \<lparr>clock = utc 2025 1 10 12 0 0, settings = default_settings\<rparr>
       (sample_event ''A'' (utc 2025 1 10 12 0 0)) (utc 2025 1 10 12 0 0) None None = Inr e1 \<and>
     enrich_event \<lparr>clock = utc 2025 1 10 12 0 0, settings = default_settings\<rparr>
       (sample_event ''B'' (utc 2025 1 9 12 0 0)) (utc 2025 1 10 12 0 0) None None = Inr e2 \<and>
     remaining_seconds e1 = 0 \<and> \<not> is_overdue e1 \<and> color_bucket e1 = Some RED \<and>
     remaining_seconds e2 = - 86400 \<and> is_overdue e2 \<and> color_bucket e2 = None \<and>
     filter_overdue [e1, e2] = ([e1], [e2])"
proof -
  let ?w = "\<lparr>clock = utc 2025 1 10 12 0 0, settings = default_settings\<rparr>"
  let ?now = "utc 2025 1 10 12 0 0"
  obtain e1 where e1: "enrich_event ?w (sample_event ''A'' (utc 2025 1 10 12 0 0)) ?now None None = Inr e1"
    by (simp add: enrich_event_def sample_event_def Let_def)
  obtain e2 where e2: "enrich_event ?w (sample_event ''B'' (utc 2025 1 9 12 0 0)) ?now None None = Inr e2"
    by (simp add: enrich_event_def sample_event_def Let_def)
  have r1: "remaining_seconds e1 = 0"
    using e1 by (auto simp: enrich_event_def sample_event_def Let_def
        calculate_remaining_seconds_def eval_defs)
  have r2: "remaining_seconds e2 = - 86400"
    using e2 by (auto simp: enrich_event_def sample_event_def Let_def
        calculate_remaining_seconds_def eval_defs)
  have x1: "\<exists>w' ev now' atts' svc'. enrich_event w' ev now' atts' svc' = Inr e1"
    using e1 by blast
  have x2: "\<exists>w' ev now' atts' svc'. enrich_event w' ev now' atts' svc' = Inr e2"
    using e2 by blast
  have all: "\<forall>x \<in> set [e1, e2]. \<exists>w' ev now' atts' svc'. enrich_event w' ev now' atts' svc' = Inr x"
    using x1 x2 by simp
  note c1 = enrich_event_coherent [of ?w "sample_event ''A'' (utc 2025 1 10 12 0 0)" ?now None None e1 "[e1, e2]"]
  note c2 = enrich_event_coherent [of ?w "sample_event ''B'' (utc 2025 1 9 12 0 0)" ?now None None e2 "[e1, e2]"]
  have p1: "\<not> is_overdue e1" "color_bucket e1 = Some RED" using c1 e1 r1 by simp_all
  have p2: "is_overdue e2" "color_bucket e2 = None" using c2 e2 r2 by simp_all
  have "fst (filter_overdue [e1, e2]) = [e1]" "snd (filter_overdue [e1, e2]) = [e2]"
    using c1 all p1 p2 by simp_all
  then have "filter_overdue [e1, e2] = ([e1], [e2])"
    by (simp add: prod_eq_iff)
  then show ?thesis using e1 e2 r1 r2 p1 p2 by blast
qed

end
